theory Spec2Isabelle
  imports Main
begin

section \<open>The deferred timer and the event loop that runs it\<close>

text \<open>
  The notebook \<^verbatim>\<open>examples/Image_slider.ipynb\<close> defines a class \<^verbatim>\<open>Timer\<close> and two
  decorators, \<^verbatim>\<open>debounce\<close> and \<^verbatim>\<open>throttle\<close>:
  \<^verbatim>\<open>
  class Timer:
      def __init__(self, timeout, callback):
          self._timeout = timeout
          self._callback = callback
          self._task = asyncio.ensure_future(self._job())
      async def _job(self):
          await asyncio.sleep(self._timeout)
          self._callback()
      def cancel(self):
          self._task.cancel()
  \<close>
  Times are exact numbers of some unit (the examples read them as milliseconds); the
  rounding of Python's floats is not modelled. One clock serves \<^verbatim>\<open>time()\<close> and the
  sleeping of the loop: only differences of readings matter to the sleep, and the
  throttler compares readings of \<^verbatim>\<open>time()\<close> with each other and with its initial 0.

  A task of the loop is pending until \<^verbatim>\<open>_job\<close> has resumed from its sleep and called the
  callback, or until it has been cancelled. The field \<open>runs\<close> is not in the source: it
  counts the calls \<^verbatim>\<open>_job\<close> has made of the callback of this timer.
\<close>

datatype task_state = Pending | Fired | Cancelled

record 'c Timer =
  timeout :: int
  callback :: 'c
  due :: int
  task :: task_state
  runs :: nat

text \<open>
  The loop: its clock and the \<^verbatim>\<open>Timer\<close> objects created so far, in creation order.
  A reference to a \<^verbatim>\<open>Timer\<close> is its position in that list.
\<close>

record 'c loop =
  clock :: int
  timers :: "'c Timer list"

text \<open>
  \<^verbatim>\<open>Timer(timeout, callback)\<close>: the new task sleeps from the instant of creation;
  \<^verbatim>\<open>asyncio.sleep\<close> of a delay that is not positive returns at once.
\<close>

definition Timer_init :: "int \<Rightarrow> 'c \<Rightarrow> 'c loop \<Rightarrow> nat \<times> 'c loop" where
  "Timer_init tmo cb L =
     (length (timers L),
      L\<lparr>timers := timers L @
         [\<lparr>timeout = tmo, callback = cb, due = clock L + max 0 tmo,
           task = Pending, runs = 0\<rparr>]\<rparr>)"

text \<open>
  \<^verbatim>\<open>Timer.cancel\<close>: \<^verbatim>\<open>Task.cancel\<close> makes a sleeping task end without resuming
  \<^verbatim>\<open>_job\<close>; on a task that is done it returns False and changes nothing. It never raises.
\<close>

definition cancel :: "nat \<Rightarrow> 'c loop \<Rightarrow> 'c loop" where
  "cancel h L =
     (if h < length (timers L) \<and> task (timers L ! h) = Pending
      then L\<lparr>timers := (timers L)[h := (timers L ! h)\<lparr>task := Cancelled\<rparr>]\<rparr>
      else L)"

definition pending :: "'c loop \<Rightarrow> nat list" where
  "pending L = filter (\<lambda>i. task (timers L ! i) = Pending) [0..<length (timers L)]"

text \<open>The pending timer that is due first; among equals, the one created first.\<close>

definition sooner :: "'c loop \<Rightarrow> nat \<Rightarrow> nat \<Rightarrow> nat" where
  "sooner L j b = (if due (timers L ! j) < due (timers L ! b) then j else b)"

definition next_due :: "'c loop \<Rightarrow> nat option" where
  "next_due L = (case pending L of [] \<Rightarrow> None | i # js \<Rightarrow> Some (fold (sooner L) js i))"

text \<open>
  The second half of \<^verbatim>\<open>_job\<close>: the sleep of timer \<open>i\<close> is over, the callback is called.
  A callback is a closure of the wrapper that created the timer; \<open>cb c t u\<close> is what the
  closure \<open>c\<close> makes of the variables \<open>u\<close> it can reach when it runs at instant \<open>t\<close>. An
  exception of the callback ends the task and goes no further, so \<open>cb\<close> returns the
  variables as the exception left them.
\<close>

definition job :: "('c \<Rightarrow> int \<Rightarrow> 'u \<Rightarrow> 'u) \<Rightarrow> nat \<Rightarrow> 'c loop \<times> 'u \<Rightarrow> 'c loop \<times> 'u" where
  "job cb i s =
     (let L = fst s; T = timers L ! i; t = max (clock L) (due T)
      in (L\<lparr>clock := t, timers := (timers L)[i := T\<lparr>task := Fired, runs := Suc (runs T)\<rparr>]\<rparr>,
          cb (callback T) t (snd s)))"

text \<open>
  A run of the loop. The loop takes the pending timer that is due first and runs its job,
  at the instant the timer is due, as long as that instant is within the horizon; then
  the clock stands at the horizon. The horizon says how far the loop runs: up to an
  instant, the timers due at that very instant included (\<open>Upto\<close>) or not (\<open>Before\<close>), or
  until no timer is pending (\<open>Forever\<close>). No callback of this program creates a timer, so
  a run ends: each job leaves one pending timer fewer.
\<close>

datatype horizon = Before int | Upto int | Forever

fun within :: "horizon \<Rightarrow> int \<Rightarrow> bool" where
  "within (Before t) d = (d < t)"
| "within (Upto t) d = (d \<le> t)"
| "within Forever d = True"

fun arrive :: "horizon \<Rightarrow> int \<Rightarrow> int" where
  "arrive (Before t) c = max c t"
| "arrive (Upto t) c = max c t"
| "arrive Forever c = c"

function run_loop :: "('c \<Rightarrow> int \<Rightarrow> 'u \<Rightarrow> 'u) \<Rightarrow> horizon \<Rightarrow> 'c loop \<times> 'u \<Rightarrow> 'c loop \<times> 'u" where
  "run_loop cb h s =
     (case next_due (fst s) of
        None \<Rightarrow> ((fst s)\<lparr>clock := arrive h (clock (fst s))\<rparr>, snd s)
      | Some i \<Rightarrow>
          if within h (due (timers (fst s) ! i)) then run_loop cb h (job cb i s)
          else ((fst s)\<lparr>clock := arrive h (clock (fst s))\<rparr>, snd s))"
  by pat_completeness auto
termination
proof (relation "measure (\<lambda>(cb, h, s). length (pending (fst s)))")
  fix cb :: "'c \<Rightarrow> int \<Rightarrow> 'u \<Rightarrow> 'u" and h :: horizon and s :: "'c loop \<times> 'u" and i
  assume nd: "next_due (fst s) = Some i"
  let ?ts = "timers (fst s)"
  let ?P = "\<lambda>j. task (?ts ! j) = Pending"
  let ?Q = "\<lambda>j. task ((?ts[i := (?ts ! i)\<lparr>task := Fired, runs := Suc (runs (?ts ! i))\<rparr>]) ! j) = Pending"
  have "fold (sooner (fst s)) js b \<in> insert b (set js)" for js b
    by (induction js arbitrary: b) (auto simp: sooner_def)
  with nd have "i \<in> set (pending (fst s))"
    by (fastforce simp: next_due_def split: list.splits)
  then have i: "i < length ?ts" "?P i" by (auto simp: pending_def)
  have imp: "?P j" if "j \<in> set [0..<length ?ts]" "?Q j" for j
    using that by (cases "j = i") auto
  have "filter ?Q [0..<length ?ts] = filter ?Q (filter ?P [0..<length ?ts])"
    unfolding filter_filter by (rule filter_cong) (use imp in auto)
  moreover have "i \<in> set (filter ?P [0..<length ?ts])" "\<not> ?Q i" using i by auto
  then have "length (filter ?Q (filter ?P [0..<length ?ts])) < length (filter ?P [0..<length ?ts])"
    by (rule length_filter_less)
  ultimately have "length (filter ?Q [0..<length ?ts]) < length (filter ?P [0..<length ?ts])"
    by simp
  then show "((cb, h, job cb i s), (cb, h, s)) \<in> measure (\<lambda>(cb, h, s). length (pending (fst s)))"
    by (simp add: pending_def job_def Let_def)
qed simp

section \<open>The wrapped function\<close>

text \<open>
  The decorated function \<^verbatim>\<open>fn\<close> is any Python function: it acts on a state of its own
  and either returns or raises. Its result is discarded by both wrappers. The list
  \<open>executed\<close> is not in the source: it records each call of \<^verbatim>\<open>fn\<close>, with the instant and
  the arguments.
\<close>

datatype 'f outcome = Returns 'f | Raises 'f

fun left :: "'f outcome \<Rightarrow> 'f" where
  "left (Returns f) = f"
| "left (Raises f) = f"

fun raised :: "'f outcome \<Rightarrow> bool" where
  "raised (Returns f) = False"
| "raised (Raises f) = True"

record ('a, 'f) target =
  fn_state :: 'f
  executed :: "(int \<times> 'a) list"

definition invoke ::
  "('a \<Rightarrow> 'f \<Rightarrow> 'f outcome) \<Rightarrow> 'a \<Rightarrow> int \<Rightarrow> ('a, 'f, 'z) target_scheme \<Rightarrow> ('a, 'f, 'z) target_scheme"
where
  "invoke fn args t u =
     u\<lparr>fn_state := left (fn args (fn_state u)), executed := executed u @ [(t, args)]\<rparr>"

section \<open>The debouncer\<close>

text \<open>
  \<^verbatim>\<open>
  def debounce(wait):
      def decorator(fn):
          timer = None
          def debounced(*args, **kwargs):
              nonlocal timer
              def call_it():
                  fn(*args, **kwargs)
              if timer is not None:
                  timer.cancel()
              timer = Timer(wait, call_it)
          return debounced
      return decorator
  \<close>
  The closure \<^verbatim>\<open>call_it\<close> of a call is given by the arguments of that call, so the
  callback of a debouncer's timer is of the type of the arguments.
\<close>

record ('a, 'f) debounce_vars = "('a, 'f) target" +
  timer :: "nat option"

type_synonym ('a, 'f) debouncer = "'a loop \<times> ('a, 'f) debounce_vars"

definition debounce :: "'f \<Rightarrow> int \<Rightarrow> ('a, 'f) debouncer" where
  "debounce f0 c = (\<lparr>clock = c, timers = []\<rparr>, \<lparr>fn_state = f0, executed = [], timer = None\<rparr>)"

definition debounce_call_it ::
  "('a \<Rightarrow> 'f \<Rightarrow> 'f outcome) \<Rightarrow> 'a \<Rightarrow> int \<Rightarrow> ('a, 'f) debounce_vars \<Rightarrow> ('a, 'f) debounce_vars"
where
  "debounce_call_it fn args t u = invoke fn args t u"

definition cancel_previous :: "('a, 'f) debouncer \<Rightarrow> ('a, 'f) debouncer" where
  "cancel_previous s =
     (case timer (snd s) of None \<Rightarrow> s | Some h \<Rightarrow> (cancel h (fst s), snd s))"

definition schedule_new :: "int \<Rightarrow> 'a \<Rightarrow> ('a, 'f) debouncer \<Rightarrow> ('a, 'f) debouncer" where
  "schedule_new wait args s =
     (let (h, L) = Timer_init wait args (fst s) in (L, (snd s)\<lparr>timer := Some h\<rparr>))"

definition debounced :: "int \<Rightarrow> 'a \<Rightarrow> ('a, 'f) debouncer \<Rightarrow> ('a, 'f) debouncer" where
  "debounced wait args s = schedule_new wait args (cancel_previous s)"

section \<open>The throttler\<close>

text \<open>
  \<^verbatim>\<open>
  def throttle(wait):
      def decorator(fn):
          time_of_last_call = 0
          scheduled = False
          new_args, new_kwargs = None, None
          def throttled(*args, **kwargs):
              nonlocal new_args, new_kwargs, time_of_last_call, scheduled
              def call_it():
                  nonlocal new_args, new_kwargs, time_of_last_call, scheduled
                  time_of_last_call = time()
                  fn(*new_args, **new_kwargs)
                  scheduled = False
              time_since_last_call = time() - time_of_last_call
              new_args = args
              new_kwargs = kwargs
              if not scheduled:
                  new_wait = max(0, wait - time_since_last_call)
                  Timer(new_wait, call_it)
                  scheduled = True
          return throttled
      return decorator
  \<close>
  Every \<^verbatim>\<open>call_it\<close> of a throttler is the same closure over the four variables, so the
  callback of a throttler's timer carries nothing. Unpacking \<^verbatim>\<open>None\<close> raises before
  \<^verbatim>\<open>fn\<close> is entered.
\<close>

record ('a, 'f) throttle_vars = "('a, 'f) target" +
  time_of_last_call :: int
  scheduled :: bool
  new_args :: "'a option"

type_synonym ('a, 'f) throttler = "unit loop \<times> ('a, 'f) throttle_vars"

definition throttle :: "'f \<Rightarrow> int \<Rightarrow> ('a, 'f) throttler" where
  "throttle f0 c =
     (\<lparr>clock = c, timers = []\<rparr>,
      \<lparr>fn_state = f0, executed = [], time_of_last_call = 0, scheduled = False, new_args = None\<rparr>)"

definition throttle_call_it ::
  "('a \<Rightarrow> 'f \<Rightarrow> 'f outcome) \<Rightarrow> unit \<Rightarrow> int \<Rightarrow> ('a, 'f) throttle_vars \<Rightarrow> ('a, 'f) throttle_vars"
where
  "throttle_call_it fn c t u =
     (let u1 = u\<lparr>time_of_last_call := t\<rparr>
      in case new_args u1 of
           None \<Rightarrow> u1
         | Some args \<Rightarrow>
             if raised (fn args (fn_state u1)) then invoke fn args t u1
             else (invoke fn args t u1)\<lparr>scheduled := False\<rparr>)"

definition throttled :: "int \<Rightarrow> 'a \<Rightarrow> ('a, 'f) throttler \<Rightarrow> ('a, 'f) throttler" where
  "throttled wait args s =
     (let time_since_last_call = clock (fst s) - time_of_last_call (snd s);
          u1 = (snd s)\<lparr>new_args := Some args\<rparr>
      in if \<not> scheduled u1
         then let new_wait = max 0 (wait - time_since_last_call);
                  (h, L) = Timer_init new_wait () (fst s)
              in (L, u1\<lparr>scheduled := True\<rparr>)
         else (fst s, u1))"

section \<open>Executions\<close>

text \<open>
  What happens to a wrapper: it is called, at the instant the clock shows, or the loop
  runs. A list of such events is an execution; \<open>Run (Before t)\<close> followed by a call is a
  call that comes before a timer due at the same instant \<open>t\<close> has fired, \<open>Run (Upto t)\<close>
  followed by a call is one that comes after. \<open>arrivals\<close> is a list of calls, each with its
  instant, read the first way: when a call is made, the loop has run the timers due
  before the instant of the call, and a timer due at that very instant is still
  pending. That is the order of the program: the sleep of a timer starts at the first
  step of its task, after the call that created the timer has returned, and \<^verbatim>\<open>_job\<close>
  resumes one iteration of the loop after the sleep has ended, so a call made at the
  instant a timer is due comes first, and its \<^verbatim>\<open>cancel\<close> takes effect.
\<close>

datatype 'a event = Call 'a | Run horizon

fun debounce_step ::
  "int \<Rightarrow> ('a \<Rightarrow> 'f \<Rightarrow> 'f outcome) \<Rightarrow> 'a event \<Rightarrow> ('a, 'f) debouncer \<Rightarrow> ('a, 'f) debouncer"
where
  "debounce_step wait fn (Call args) s = debounced wait args s"
| "debounce_step wait fn (Run h) s = run_loop (debounce_call_it fn) h s"

fun throttle_step ::
  "int \<Rightarrow> ('a \<Rightarrow> 'f \<Rightarrow> 'f outcome) \<Rightarrow> 'a event \<Rightarrow> ('a, 'f) throttler \<Rightarrow> ('a, 'f) throttler"
where
  "throttle_step wait fn (Call args) s = throttled wait args s"
| "throttle_step wait fn (Run h) s = run_loop (throttle_call_it fn) h s"

fun arrivals :: "(int \<times> 'a) list \<Rightarrow> 'a event list" where
  "arrivals [] = []"
| "arrivals ((t, args) # cs) = Run (Before t) # Call args # arrivals cs"

definition debounce_run ::
  "int \<Rightarrow> ('a \<Rightarrow> 'f \<Rightarrow> 'f outcome) \<Rightarrow> 'a event list \<Rightarrow> ('a, 'f) debouncer \<Rightarrow> ('a, 'f) debouncer"
where
  "debounce_run wait fn evs s = fold (debounce_step wait fn) evs s"

definition throttle_run ::
  "int \<Rightarrow> ('a \<Rightarrow> 'f \<Rightarrow> 'f outcome) \<Rightarrow> 'a event list \<Rightarrow> ('a, 'f) throttler \<Rightarrow> ('a, 'f) throttler"
where
  "throttle_run wait fn evs s = fold (throttle_step wait fn) evs s"

text \<open>
  A burst after a call at instant \<open>t\<close>: every call comes less than \<open>wait\<close> after the one
  before it, and not before it.
\<close>

fun burst :: "int \<Rightarrow> int \<Rightarrow> (int \<times> 'a) list \<Rightarrow> bool" where
  "burst wait t [] = True"
| "burst wait t ((t', args) # cs) = (t \<le> t' \<and> t' < t + wait \<and> burst wait t' cs)"

text \<open>What happens to a loop with timers of any kind: a timer is created or cancelled, or the loop runs.\<close>

datatype 'c timer_event = New int 'c | Cancel nat | Loop horizon

fun timer_step ::
  "('c \<Rightarrow> int \<Rightarrow> 'u \<Rightarrow> 'u) \<Rightarrow> 'c timer_event \<Rightarrow> 'c loop \<times> 'u \<Rightarrow> 'c loop \<times> 'u"
where
  "timer_step cb (New tmo c) s = (snd (Timer_init tmo c (fst s)), snd s)"
| "timer_step cb (Cancel k) s = (cancel k (fst s), snd s)"
| "timer_step cb (Loop h) s = run_loop cb h s"

definition timer_run ::
  "('c \<Rightarrow> int \<Rightarrow> 'u \<Rightarrow> 'u) \<Rightarrow> 'c timer_event list \<Rightarrow> 'c loop \<times> 'u \<Rightarrow> 'c loop \<times> 'u"
where
  "timer_run cb evs s = fold (timer_step cb) evs s"

text \<open>
  Predicates of the proofs. A debouncer is \<open>armed\<close> when the timer it refers to is the one
  pending timer, due at \<open>d\<close> with the arguments \<open>args\<close>. In every state a debouncer reaches,
  a pending timer is the one it refers to (\<open>debounce_inv\<close>), and a throttler has at most
  one pending timer, and that only while \<open>scheduled\<close> holds and arguments are stored
  (\<open>throttle_inv\<close>). A throttler is \<open>wedged\<close> when \<open>scheduled\<close> holds and no timer is pending.
\<close>

definition armed :: "int \<Rightarrow> 'a \<Rightarrow> ('a, 'f) debouncer \<Rightarrow> bool" where
  "armed d args s =
     (case timer (snd s) of
        None \<Rightarrow> False
      | Some k \<Rightarrow> pending (fst s) = [k] \<and> due (timers (fst s) ! k) = d \<and>
          callback (timers (fst s) ! k) = args \<and> clock (fst s) \<le> d)"

definition debounce_inv :: "('a, 'f) debouncer \<Rightarrow> bool" where
  "debounce_inv s =
     (case timer (snd s) of None \<Rightarrow> pending (fst s) = [] | Some k \<Rightarrow> pending (fst s) = [] \<or> pending (fst s) = [k])"

definition throttle_inv :: "('a, 'f) throttler \<Rightarrow> bool" where
  "throttle_inv s =
     (case pending (fst s) of
        [] \<Rightarrow> True
      | k # ks \<Rightarrow> ks = [] \<and> scheduled (snd s) \<and> new_args (snd s) \<noteq> None)"

definition wedged :: "('a, 'f) throttler \<Rightarrow> bool" where
  "wedged s = (scheduled (snd s) \<and> pending (fst s) = [])"

text \<open>The count \<open>runs\<close> of a timer agrees with the state of its task.\<close>

definition counted :: "'c Timer \<Rightarrow> bool" where
  "counted T = (runs T = (if task T = Fired then 1 else 0))"

text \<open>
  Two debouncers have the same future when they agree on the clock, on the state of the
  wrapped function and on the pending timer, if any; the executions of the first are
  those of the second after \<open>pre\<close>.
\<close>

definition same_future ::
  "(int \<times> 'a) list \<Rightarrow> ('a, 'f) debouncer \<Rightarrow> ('a, 'f) debouncer \<Rightarrow> bool" where
  "same_future pre s s' =
     (clock (fst s) = clock (fst s') \<and> fn_state (snd s) = fn_state (snd s') \<and>
      executed (snd s) = pre @ executed (snd s') \<and>
      ((pending (fst s) = [] \<and> pending (fst s') = []) \<or> (\<exists>d a. armed d a s \<and> armed d a s')))"

text \<open>A timer of a throttler is never cancelled, and its count is right.\<close>

definition sound :: "'c Timer \<Rightarrow> bool" where
  "sound T = (task T \<noteq> Cancelled \<and> counted T)"

text \<open>
  For the timer \<open>k\<close> when no other timer is pending and none is created: it is due at \<open>d\<close>
  with the callback \<open>c\<close>, and what the callbacks can reach is \<open>u0\<close> as long as the timer
  has not fired, and what one call of the callback, at \<open>d\<close>, makes of \<open>u0\<close> once it has.
\<close>

fun is_New :: "'c timer_event \<Rightarrow> bool" where
  "is_New (New tmo c) = True"
| "is_New (Cancel k) = False"
| "is_New (Loop h) = False"

definition alone :: "('c \<Rightarrow> int \<Rightarrow> 'u \<Rightarrow> 'u) \<Rightarrow> nat \<Rightarrow> int \<Rightarrow> 'c \<Rightarrow> 'u \<Rightarrow> 'c loop \<times> 'u \<Rightarrow> bool" where
  "alone cb k d c u0 s =
     (k < length (timers (fst s)) \<and> due (timers (fst s) ! k) = d \<and>
      callback (timers (fst s) ! k) = c \<and>
      (case task (timers (fst s) ! k) of
         Pending \<Rightarrow> pending (fst s) = [k] \<and> clock (fst s) \<le> d \<and> snd s = u0
       | Fired \<Rightarrow> pending (fst s) = [] \<and> snd s = cb c d u0
       | Cancelled \<Rightarrow> pending (fst s) = [] \<and> snd s = u0))"

text \<open>
  For the timer \<open>k\<close> among others, when the callbacks record their calls (\<open>note_call\<close>
  below) and no other timer has the callback \<open>c\<close> of \<open>k\<close>: the recorded calls of \<open>c\<close> are
  \<open>n\<close> more than the count \<open>runs\<close> of the timer.
\<close>

definition calls_of :: "'c \<Rightarrow> (int \<times> 'c) list \<Rightarrow> nat" where
  "calls_of c calls = length (filter (\<lambda>e. snd e = c) calls)"

definition tallied :: "'c \<Rightarrow> nat \<Rightarrow> nat \<Rightarrow> 'c loop \<times> (int \<times> 'c) list \<Rightarrow> bool" where
  "tallied c k n s =
     (k < length (timers (fst s)) \<and> callback (timers (fst s) ! k) = c \<and>
      (\<forall>j < length (timers (fst s)). j \<noteq> k \<longrightarrow> callback (timers (fst s) ! j) \<noteq> c) \<and>
      calls_of c (snd s) = n + runs (timers (fst s) ! k))"

text \<open>A callback for the instances: it records its call.\<close>

definition note_call :: "'c \<Rightarrow> int \<Rightarrow> (int \<times> 'c) list \<Rightarrow> (int \<times> 'c) list" where
  "note_call c t calls = calls @ [(t, c)]"

text \<open>Two functions to decorate, for the instances: one always returns, one always raises.\<close>

definition succeeds :: "'a \<Rightarrow> unit \<Rightarrow> unit outcome" where
  "succeeds args f = Returns f"

definition fails :: "'a \<Rightarrow> unit \<Rightarrow> unit outcome" where
  "fails args f = Raises f"

text \<open>A third one keeps, as its state, the arguments of the calls made of it so far.\<close>

definition records :: "'a \<Rightarrow> 'a list \<Rightarrow> 'a list outcome" where
  "records args f = Returns (f @ [args])"

section \<open>Facts about the loop\<close>

declare run_loop.simps [simp del]

lemma next_due_in_pending: "next_due L = Some i \<Longrightarrow> i \<in> set (pending L)"
proof -
  have "fold (sooner L) js b \<in> insert b (set js)" for js b
    by (induction js arbitrary: b) (auto simp: sooner_def)
  then show "next_due L = Some i \<Longrightarrow> i \<in> set (pending L)"
    by (fastforce simp: next_due_def split: list.splits)
qed

lemma pending_iff: "j \<in> set (pending L) \<longleftrightarrow> j < length (timers L) \<and> task (timers L ! j) = Pending"
  by (auto simp: pending_def)

lemma pending_clock [simp]: "pending (L\<lparr>clock := t\<rparr>) = pending L"
  by (simp add: pending_def)

lemma pending_Timer_init:
  "pending (snd (Timer_init tmo c L)) = pending L @ [length (timers L)]"
proof -
  let ?T = "\<lparr>timeout = tmo, callback = c, due = clock L + max 0 tmo, task = Pending, runs = 0\<rparr>"
  have "filter (\<lambda>i. task ((timers L @ [?T]) ! i) = Pending) [0..<length (timers L)] =
        filter (\<lambda>i. task (timers L ! i) = Pending) [0..<length (timers L)]"
    by (rule filter_cong) (simp_all add: nth_append)
  then show ?thesis by (simp add: pending_def Timer_init_def)
qed

lemma pending_update_done:
  assumes "task T \<noteq> Pending"
  shows "pending (L\<lparr>timers := (timers L)[i := T]\<rparr>) = filter (\<lambda>j. j \<noteq> i) (pending L)"
proof -
  have "(task ((timers L)[i := T] ! x) = Pending) = (task (timers L ! x) = Pending \<and> x \<noteq> i)"
    if "x \<in> set [0..<length (timers L)]" for x
    using that assms by (cases "x = i") simp_all
  then have "filter (\<lambda>x. task ((timers L)[i := T] ! x) = Pending) [0..<length (timers L)] =
        filter (\<lambda>x. task (timers L ! x) = Pending \<and> x \<noteq> i) [0..<length (timers L)]"
    by (rule filter_cong[OF refl])
  then show ?thesis by (simp add: pending_def)
qed

lemma pending_cancel: "pending (cancel h L) = filter (\<lambda>j. j \<noteq> h) (pending L)"
proof (cases "h < length (timers L) \<and> task (timers L ! h) = Pending")
  case True
  then show ?thesis by (simp add: cancel_def pending_update_done)
next
  case False
  then have "h \<notin> set (pending L)" by (simp add: pending_iff)
  then have "filter (\<lambda>j. j \<noteq> h) (pending L) = pending L"
    by (intro filter_True) auto
  with False show ?thesis by (auto simp: cancel_def)
qed

lemma pending_job: "pending (fst (job cb i s)) = filter (\<lambda>j. j \<noteq> i) (pending (fst s))"
proof -
  have "pending (fst (job cb i s)) =
        pending ((fst s)\<lparr>timers := (timers (fst s))[i := (timers (fst s) ! i)\<lparr>task := Fired, runs := Suc (runs (timers (fst s) ! i))\<rparr>]\<rparr>)"
    by (simp add: job_def Let_def pending_def)
  then show ?thesis by (simp add: pending_update_done)
qed

lemma next_due_None: "next_due L = None \<longleftrightarrow> pending L = []"
  by (simp add: next_due_def split: list.splits)

lemma next_due_single: "pending L = [i] \<Longrightarrow> next_due L = Some i"
  by (simp add: next_due_def)

lemma run_loop_idle:
  "pending (fst s) = [] \<Longrightarrow> run_loop cb h s = ((fst s)\<lparr>clock := arrive h (clock (fst s))\<rparr>, snd s)"
  by (subst run_loop.simps) (simp add: next_due_def)

lemma run_loop_single:
  assumes "pending (fst s) = [i]"
  shows "run_loop cb h s =
     (if within h (due (timers (fst s) ! i))
      then ((fst (job cb i s))\<lparr>clock := arrive h (clock (fst (job cb i s)))\<rparr>, snd (job cb i s))
      else ((fst s)\<lparr>clock := arrive h (clock (fst s))\<rparr>, snd s))"
proof -
  have "pending (fst (job cb i s)) = []" using assms by (simp add: pending_job)
  then have "run_loop cb h (job cb i s) =
      ((fst (job cb i s))\<lparr>clock := arrive h (clock (fst (job cb i s)))\<rparr>, snd (job cb i s))"
    by (rule run_loop_idle)
  then show ?thesis
    by (subst run_loop.simps) (simp add: next_due_single[OF assms])
qed

lemma run_loop_preserves:
  assumes "P s"
    and job: "\<And>s i. P s \<Longrightarrow> i \<in> set (pending (fst s)) \<Longrightarrow> P (job cb i s)"
    and tick: "\<And>s t. P s \<Longrightarrow> P ((fst s)\<lparr>clock := t\<rparr>, snd s)"
  shows "P (run_loop cb h s)"
  using assms
proof (induction cb h s rule: run_loop.induct)
  case (1 cb h s)
  note P = \<open>P s\<close> and job = "1.prems"(2) and tick = "1.prems"(3)
  show ?case
  proof (cases "next_due (fst s)")
    case None
    have "P ((fst s)\<lparr>clock := arrive h (clock (fst s))\<rparr>, snd s)" using P by (rule tick)
    then show ?thesis using None by (subst run_loop.simps) simp
  next
    case (Some i)
    show ?thesis
    proof (cases "within h (due (timers (fst s) ! i))")
      case True
      have "i \<in> set (pending (fst s))" using Some by (rule next_due_in_pending)
      with P have "P (job cb i s)" by (rule job)
      with Some True have "P (run_loop cb h (job cb i s))" using job tick by (intro "1.IH")
      then show ?thesis using Some True by (subst run_loop.simps) simp
    next
      case False
      have "P ((fst s)\<lparr>clock := arrive h (clock (fst s))\<rparr>, snd s)" using P by (rule tick)
      then show ?thesis using Some False by (subst run_loop.simps) simp
    qed
  qed
qed

lemma run_loop_Forever: "pending (fst (run_loop cb Forever s)) = []"
proof (induction cb "Forever" s rule: run_loop.induct)
  case (1 cb s)
  show ?case
  proof (cases "next_due (fst s)")
    case None
    then have "pending (fst s) = []" by (simp add: next_due_None)
    then show ?thesis by (simp add: run_loop_idle)
  next
    case (Some i)
    have "pending (fst (run_loop cb Forever (job cb i s))) = []"
      using Some by (intro "1.hyps") simp_all
    then show ?thesis using Some by (subst run_loop.simps) simp
  qed
qed

lemma length_Timer_init [simp]:
  "length (timers (snd (Timer_init tmo c L))) = Suc (length (timers L))"
  by (simp add: Timer_init_def)

lemma fst_Timer_init [simp]: "fst (Timer_init tmo c L) = length (timers L)"
  by (simp add: Timer_init_def)

lemma clock_Timer_init [simp]: "clock (snd (Timer_init tmo c L)) = clock L"
  by (simp add: Timer_init_def)

lemma nth_Timer_init_old:
  "k < length (timers L) \<Longrightarrow> timers (snd (Timer_init tmo c L)) ! k = timers L ! k"
  by (simp add: Timer_init_def nth_append)

lemma nth_Timer_init_new:
  "timers (snd (Timer_init tmo c L)) ! length (timers L) =
     \<lparr>timeout = tmo, callback = c, due = clock L + max 0 tmo, task = Pending, runs = 0\<rparr>"
  by (simp add: Timer_init_def)

lemma length_cancel [simp]: "length (timers (cancel k L)) = length (timers L)"
  by (simp add: cancel_def)

lemma clock_cancel [simp]: "clock (cancel k L) = clock L"
  by (simp add: cancel_def)

lemma cancel_noop: "k \<notin> set (pending L) \<Longrightarrow> cancel k L = L"
  by (auto simp: cancel_def pending_iff)

lemma length_job [simp]: "length (timers (fst (job cb i s))) = length (timers (fst s))"
  by (simp add: job_def Let_def)

lemma snd_job: "snd (job cb i s) = cb (callback (timers (fst s) ! i)) (max (clock (fst s)) (due (timers (fst s) ! i))) (snd s)"
  by (simp add: job_def Let_def)

lemma clock_job: "clock (fst (job cb i s)) = max (clock (fst s)) (due (timers (fst s) ! i))"
  by (simp add: job_def Let_def)

section \<open>Facts about the debouncer\<close>

lemma debounce_inv_init: "debounce_inv (debounce f0 c)"
  by (simp add: debounce_inv_def debounce_def pending_def)

lemma armed_inv: "armed d a s \<Longrightarrow> debounce_inv s"
  by (auto simp: armed_def debounce_inv_def split: option.splits)

lemma idle_inv: "pending (fst s) = [] \<Longrightarrow> debounce_inv s"
  by (auto simp: debounce_inv_def split: option.splits)

lemma cancel_previous_idle:
  "debounce_inv s \<Longrightarrow> pending (fst (cancel_previous s)) = []"
  by (auto simp: debounce_inv_def cancel_previous_def pending_cancel split: option.splits)

lemma cancel_previous_same [simp]:
  "snd (cancel_previous s) = snd s"
  "clock (fst (cancel_previous s)) = clock (fst s)"
  "length (timers (fst (cancel_previous s))) = length (timers (fst s))"
  by (auto simp: cancel_previous_def split: option.splits)

lemma schedule_new_armed:
  assumes "pending (fst s) = []"
  shows "armed (clock (fst s) + max 0 w) a (schedule_new w a s)"
    and "pending (fst (schedule_new w a s)) = [length (timers (fst s))]"
  using assms
  by (simp_all add: armed_def schedule_new_def split_beta pending_Timer_init nth_Timer_init_new)

lemma schedule_new_same [simp]:
  "fn_state (snd (schedule_new w a s)) = fn_state (snd s)"
  "executed (snd (schedule_new w a s)) = executed (snd s)"
  "clock (fst (schedule_new w a s)) = clock (fst s)"
  by (simp_all add: schedule_new_def split_beta)

lemma debounced_armed:
  assumes "debounce_inv s"
  shows "armed (clock (fst s) + max 0 w) a (debounced w a s)"
  using schedule_new_armed(1)[OF cancel_previous_idle[OF assms], of w a]
  by (simp add: debounced_def)

lemma debounced_same [simp]:
  "fn_state (snd (debounced w a s)) = fn_state (snd s)"
  "executed (snd (debounced w a s)) = executed (snd s)"
  "clock (fst (debounced w a s)) = clock (fst s)"
  by (simp_all add: debounced_def)

lemma run_loop_armed_wait:
  assumes "armed d a s" "\<not> within h d"
  shows "run_loop cb h s = ((fst s)\<lparr>clock := arrive h (clock (fst s))\<rparr>, snd s)"
    and "armed d a (run_loop cb h s)"
proof -
  from assms(1) obtain k where k: "timer (snd s) = Some k" "pending (fst s) = [k]"
    "due (timers (fst s) ! k) = d" "callback (timers (fst s) ! k) = a" "clock (fst s) \<le> d"
    by (auto simp: armed_def split: option.splits)
  show eq: "run_loop cb h s = ((fst s)\<lparr>clock := arrive h (clock (fst s))\<rparr>, snd s)"
    using assms(2) k by (simp add: run_loop_single)
  have "arrive h (clock (fst s)) \<le> d" using assms(2) k(5) by (cases h) auto
  then show "armed d a (run_loop cb h s)"
    using k by (simp add: eq armed_def pending_def)
qed

lemma run_loop_armed_fire:
  assumes "armed d a s" "within h d"
  shows "executed (snd (run_loop (debounce_call_it fn) h s)) = executed (snd s) @ [(d, a)]"
    and "fn_state (snd (run_loop (debounce_call_it fn) h s)) = left (fn a (fn_state (snd s)))"
    and "timer (snd (run_loop (debounce_call_it fn) h s)) = timer (snd s)"
    and "pending (fst (run_loop (debounce_call_it fn) h s)) = []"
    and "clock (fst (run_loop (debounce_call_it fn) h s)) = arrive h d"
proof -
  from assms(1) obtain k where k: "timer (snd s) = Some k" "pending (fst s) = [k]"
    "due (timers (fst s) ! k) = d" "callback (timers (fst s) ! k) = a" "clock (fst s) \<le> d"
    by (auto simp: armed_def split: option.splits)
  let ?j = "job (debounce_call_it fn) k s"
  have eq: "run_loop (debounce_call_it fn) h s = ((fst ?j)\<lparr>clock := arrive h (clock (fst ?j))\<rparr>, snd ?j)"
    using assms(2) k by (simp add: run_loop_single)
  have m: "max (clock (fst s)) d = d" using k(5) by simp
  show "executed (snd (run_loop (debounce_call_it fn) h s)) = executed (snd s) @ [(d, a)]"
    by (simp add: eq snd_job k m debounce_call_it_def invoke_def)
  show "fn_state (snd (run_loop (debounce_call_it fn) h s)) = left (fn a (fn_state (snd s)))"
    by (simp add: eq snd_job k m debounce_call_it_def invoke_def)
  show "timer (snd (run_loop (debounce_call_it fn) h s)) = timer (snd s)"
    by (simp add: eq snd_job k m debounce_call_it_def invoke_def)
  show "pending (fst (run_loop (debounce_call_it fn) h s)) = []"
    by (simp add: eq pending_job k)
  show "clock (fst (run_loop (debounce_call_it fn) h s)) = arrive h d"
    by (simp add: eq clock_job k m)
qed

lemma run_loop_idle_same:
  assumes "pending (fst s) = []"
  shows "snd (run_loop cb h s) = snd s"
    and "pending (fst (run_loop cb h s)) = []"
    and "clock (fst (run_loop cb h s)) = arrive h (clock (fst s))"
    and "timers (fst (run_loop cb h s)) = timers (fst s)"
  using assms by (simp_all add: run_loop_idle)

lemma debounce_inv_cases:
  assumes "debounce_inv s"
  obtains "pending (fst s) = []" | k where "timer (snd s) = Some k" "pending (fst s) = [k]"
  using assms by (auto simp: debounce_inv_def split: option.splits)

lemma debounce_run_Nil [simp]: "debounce_run w fn [] s = s"
  by (simp add: debounce_run_def)

lemma debounce_run_Cons [simp]:
  "debounce_run w fn (ev # evs) s = debounce_run w fn evs (debounce_step w fn ev s)"
  by (simp add: debounce_run_def)

lemma debounce_run_append:
  "debounce_run w fn (evs @ evs') s = debounce_run w fn evs' (debounce_run w fn evs s)"
  by (simp add: debounce_run_def)

lemma debounce_fresh_idle: "pending (fst (debounce f0 c)) = []"
  by (simp add: debounce_def pending_def)

lemma debounce_first_call:
  assumes "arrive h c = t"
  shows "armed (t + max 0 w) a (debounce_run w fn [Run h, Call a] (debounce f0 c))"
    and "clock (fst (debounce_run w fn [Run h, Call a] (debounce f0 c))) = t"
    and "executed (snd (debounce_run w fn [Run h, Call a] (debounce f0 c))) = []"
    and "fn_state (snd (debounce_run w fn [Run h, Call a] (debounce f0 c))) = f0"
proof -
  let ?s1 = "run_loop (debounce_call_it fn) h (debounce f0 c)"
  note idle = run_loop_idle_same[OF debounce_fresh_idle, of "debounce_call_it fn" h f0 c]
  have c1: "clock (fst ?s1) = t" using assms by (simp add: idle(3)) (simp add: debounce_def)
  have inv: "debounce_inv ?s1" using idle(2) by (rule idle_inv)
  show "armed (t + max 0 w) a (debounce_run w fn [Run h, Call a] (debounce f0 c))"
    using debounced_armed[OF inv, of w a] by (simp add: c1)
  show "clock (fst (debounce_run w fn [Run h, Call a] (debounce f0 c))) = t"
    by (simp add: c1)
  show "executed (snd (debounce_run w fn [Run h, Call a] (debounce f0 c))) = []"
    by (simp add: idle(1)) (simp add: debounce_def)
  show "fn_state (snd (debounce_run w fn [Run h, Call a] (debounce f0 c))) = f0"
    by (simp add: idle(1)) (simp add: debounce_def)
qed

lemma debounce_next_call:
  assumes "armed (t + w) a s" and "clock (fst s) = t" and "0 \<le> w" and "t \<le> t'" and "t' \<le> t + w"
  shows "armed (t' + w) a' (debounced w a' (run_loop cb (Before t') s))"
    and "clock (fst (debounced w a' (run_loop cb (Before t') s))) = t'"
    and "executed (snd (debounced w a' (run_loop cb (Before t') s))) = executed (snd s)"
    and "fn_state (snd (debounced w a' (run_loop cb (Before t') s))) = fn_state (snd s)"
proof -
  let ?s1 = "run_loop cb (Before t') s"
  have nw: "\<not> within (Before t') (t + w)" using assms(5) by simp
  note s1 = run_loop_armed_wait[OF assms(1) nw, of cb]
  have c1: "clock (fst ?s1) = t'" using assms(2,4) by (simp add: s1(1))
  have "armed (t' + max 0 w) a' (debounced w a' ?s1)"
    using debounced_armed[OF armed_inv[OF s1(2)], of w a'] by (simp add: c1)
  then show "armed (t' + w) a' (debounced w a' ?s1)" using assms(3) by simp
  show "clock (fst (debounced w a' ?s1)) = t'" by (simp add: c1)
  show "executed (snd (debounced w a' ?s1)) = executed (snd s)" by (simp add: s1(1))
  show "fn_state (snd (debounced w a' ?s1)) = fn_state (snd s)" by (simp add: s1(1))
qed

lemma burst_collapses:
  assumes "armed (t + w) a s" "clock (fst s) = t" "0 \<le> w" "burst w t cs"
  shows "executed (snd (debounce_run w fn (arrivals cs @ [Run Forever]) s)) =
           executed (snd s) @ [(fst (last ((t, a) # cs)) + w, snd (last ((t, a) # cs)))] \<and>
         fn_state (snd (debounce_run w fn (arrivals cs @ [Run Forever]) s)) =
           left (fn (snd (last ((t, a) # cs))) (fn_state (snd s)))"
  using assms
proof (induction cs arbitrary: t a s)
  case Nil
  then show ?case by (simp add: run_loop_armed_fire(1,2))
next
  case (Cons x cs)
  obtain t' a' where x: "x = (t', a')" by (cases x)
  from Cons.prems x have t': "t \<le> t'" "t' \<le> t + w" "burst w t' cs" by simp_all
  let ?s2 = "debounced w a' (run_loop (debounce_call_it fn) (Before t') s)"
  note n = debounce_next_call[OF Cons.prems(1,2,3) t'(1,2), of a' "debounce_call_it fn"]
  from Cons.IH[OF n(1) n(2) Cons.prems(3) t'(3)] n(3,4) show ?case by (simp add: x)
qed

section \<open>The debouncer: bursts and separate calls\<close>

text \<open>
  Claim C1 (debounce collapse). A fresh debounced wrapper with \<open>wait = w\<close> receives a
  burst of one or more calls, \<open>(t, a)\<close> and then those of \<open>cs\<close>, each less than \<open>w\<close> after
  the one before it; then the loop runs until no timer is pending. The wrapped function
  has been executed exactly once: \<open>w\<close> after the last call of the burst, with the
  arguments of that call, so that the state it acts on is the one a single call with
  those arguments leaves from the initial one. The wait is a duration, \<open>0 \<le> w\<close>, and the
  clock of the wrapper has not passed the first call. The calls at 0, 50 and 100 with a
  wait of 200 are the instance below: one execution, at 300, with the arguments of the
  call at 100.
\<close>

theorem debounce_collapse:
  assumes "0 \<le> w" and "c \<le> t" and "burst w t cs"
  shows "executed (snd (debounce_run w fn (arrivals ((t, a) # cs) @ [Run Forever]) (debounce f0 c))) =
           [(fst (last ((t, a) # cs)) + w, snd (last ((t, a) # cs)))] \<and>
         fn_state (snd (debounce_run w fn (arrivals ((t, a) # cs) @ [Run Forever]) (debounce f0 c))) =
           left (fn (snd (last ((t, a) # cs))) f0)"
proof -
  let ?s = "debounce_run w fn [Run (Before t), Call a] (debounce f0 c)"
  have "arrive (Before t) c = t" using assms(2) by simp
  note first = debounce_first_call[OF this, where w = w and a = a and fn = fn and ?f0.0 = f0]
  have "armed (t + w) a ?s" using first(1) assms(1) by simp
  note b = burst_collapses[OF this first(2) assms(1,3), of fn]
  have "debounce_run w fn (arrivals ((t, a) # cs) @ [Run Forever]) (debounce f0 c) =
      debounce_run w fn (arrivals cs @ [Run Forever]) ?s"
    by simp
  then show ?thesis using b first(3,4) by simp
qed

theorem debounce_collapse_witness:
  "(0::int) \<le> 200 \<and> (0::int) \<le> 0 \<and> burst 200 0 [(50, ''b''), (100, ''c'')] \<and>
   executed (snd (debounce_run 200 records
       (arrivals [(0, ''a''), (50, ''b''), (100, ''c'')] @ [Run Forever]) (debounce [] 0))) =
     [(300, ''c'')] \<and>
   fn_state (snd (debounce_run 200 records
       (arrivals [(0, ''a''), (50, ''b''), (100, ''c'')] @ [Run Forever]) (debounce [] 0))) =
     [''c'']"
  using debounce_collapse[of 200 0 0 "[(50, ''b''), (100, ''c'')]" records "''a''" "[]"]
  by (simp add: records_def)

lemma debounce_two_calls:
  assumes "0 \<le> w" and "arrive h1 c = t1" and "within h2 (t1 + w)" and "arrive h2 (t1 + w) = t2"
  shows "executed (snd (debounce_run w fn [Run h1, Call a, Run h2, Call b, Run Forever]
           (debounce f0 c))) = [(t1 + w, a), (t2 + w, b)] \<and>
         fn_state (snd (debounce_run w fn [Run h1, Call a, Run h2, Call b, Run Forever]
           (debounce f0 c))) = left (fn b (left (fn a f0)))"
proof -
  let ?cb = "debounce_call_it fn"
  let ?s2 = "debounce_run w fn [Run h1, Call a] (debounce f0 c)"
  let ?s3 = "run_loop ?cb h2 ?s2"
  let ?s4 = "debounced w b ?s3"
  note first = debounce_first_call[OF assms(2), where w = w and a = a and fn = fn and ?f0.0 = f0]
  have a2: "armed (t1 + w) a ?s2" using first(1) assms(1) by simp
  note s3 = run_loop_armed_fire[OF a2 assms(3), of fn]
  have e3: "executed (snd ?s3) = [(t1 + w, a)]" using s3(1) first(3) by simp
  have f3: "fn_state (snd ?s3) = left (fn a f0)" using s3(2) first(4) by simp
  have c3: "clock (fst ?s3) = t2" using s3(5) assms(4) by simp
  have "armed (t2 + max 0 w) b ?s4"
    using debounced_armed[OF idle_inv[OF s3(4)], of w b] c3 by simp
  then have a4: "armed (t2 + w) b ?s4" using assms(1) by simp
  have wf: "within Forever (t2 + w)" by simp
  note s5 = run_loop_armed_fire[OF a4 wf, of fn]
  have "executed (snd (run_loop ?cb Forever ?s4)) = [(t1 + w, a), (t2 + w, b)]"
    using s5(1) e3 by simp
  moreover have "fn_state (snd (run_loop ?cb Forever ?s4)) = left (fn b (left (fn a f0)))"
    using s5(2) f3 by simp
  moreover have "debounce_run w fn [Run h1, Call a, Run h2, Call b, Run Forever] (debounce f0 c) =
      run_loop ?cb Forever ?s4"
    by simp
  ultimately show ?thesis by simp
qed

lemma debounce_call_at_due:
  assumes "0 \<le> w" and "c \<le> t1"
  shows "executed (snd (debounce_run w fn (arrivals [(t1, a), (t1 + w, b)] @ [Run Forever])
           (debounce f0 c))) = [(t1 + w + w, b)] \<and>
         fn_state (snd (debounce_run w fn (arrivals [(t1, a), (t1 + w, b)] @ [Run Forever])
           (debounce f0 c))) = left (fn b f0)"
proof -
  let ?cb = "debounce_call_it fn"
  let ?s2 = "debounce_run w fn [Run (Before t1), Call a] (debounce f0 c)"
  let ?s4 = "debounced w b (run_loop ?cb (Before (t1 + w)) ?s2)"
  have "arrive (Before t1) c = t1" using assms(2) by simp
  note first = debounce_first_call[OF this, where w = w and a = a and fn = fn and ?f0.0 = f0]
  have a2: "armed (t1 + w) a ?s2" using first(1) assms(1) by simp
  have le: "t1 \<le> t1 + w" "t1 + w \<le> t1 + w" using assms(1) by simp_all
  note n = debounce_next_call[OF a2 first(2) assms(1) le, of b ?cb]
  have wf: "within Forever (t1 + w + w)" by simp
  note s5 = run_loop_armed_fire[OF n(1) wf, of fn]
  have "executed (snd (run_loop ?cb Forever ?s4)) = [(t1 + w + w, b)]"
    using s5(1) n(3) first(3) by simp
  moreover have "fn_state (snd (run_loop ?cb Forever ?s4)) = left (fn b f0)"
    using s5(2) n(4) first(4) by simp
  moreover have "debounce_run w fn (arrivals [(t1, a), (t1 + w, b)] @ [Run Forever]) (debounce f0 c) =
      run_loop ?cb Forever ?s4"
    by simp
  ultimately show ?thesis by simp
qed

text \<open>
  Claim C7 (debounce isolation), as amended. Two calls of a fresh debounced wrapper,
  the second more than \<open>w\<close> after the first: the wrapped function is executed twice, \<open>w\<close>
  after each call and with the arguments of that call, first those of the first call
  and then those of the second; this does not depend on the order of the loop at an
  instant. When the second call comes exactly \<open>w\<close> after the first, the timer of the
  first call is due at the instant of the second call and still pending: the call
  cancels it, and the wrapped function is executed once, \<open>w\<close> after the second call and
  with its arguments. The calls at 0 and 300 with a wait of 200 are the instance below:
  executions at 200 and at 500.
\<close>

theorem debounce_isolation:
  assumes "0 \<le> w" and "c \<le> t1"
  shows "(t1 + w < t2 \<longrightarrow>
            executed (snd (debounce_run w fn (arrivals [(t1, a), (t2, b)] @ [Run Forever])
              (debounce f0 c))) = [(t1 + w, a), (t2 + w, b)] \<and>
            fn_state (snd (debounce_run w fn (arrivals [(t1, a), (t2, b)] @ [Run Forever])
              (debounce f0 c))) = left (fn b (left (fn a f0))) \<and>
            executed (snd (debounce_run w fn [Run (Upto t1), Call a, Run (Upto t2), Call b, Run Forever]
              (debounce f0 c))) = [(t1 + w, a), (t2 + w, b)] \<and>
            fn_state (snd (debounce_run w fn [Run (Upto t1), Call a, Run (Upto t2), Call b, Run Forever]
              (debounce f0 c))) = left (fn b (left (fn a f0)))) \<and>
         executed (snd (debounce_run w fn (arrivals [(t1, a), (t1 + w, b)] @ [Run Forever])
           (debounce f0 c))) = [(t1 + w + w, b)] \<and>
         fn_state (snd (debounce_run w fn (arrivals [(t1, a), (t1 + w, b)] @ [Run Forever])
           (debounce f0 c))) = left (fn b f0)"
proof -
  have 1: "executed (snd (debounce_run w fn (arrivals [(t1, a), (t2, b)] @ [Run Forever])
              (debounce f0 c))) = [(t1 + w, a), (t2 + w, b)] \<and>
            fn_state (snd (debounce_run w fn (arrivals [(t1, a), (t2, b)] @ [Run Forever])
              (debounce f0 c))) = left (fn b (left (fn a f0)))" if "t1 + w < t2"
  proof -
    have "arrive (Before t1) c = t1" "within (Before t2) (t1 + w)" "arrive (Before t2) (t1 + w) = t2"
      using that assms(2) by simp_all
    from debounce_two_calls[OF assms(1) this, of fn a b f0] show ?thesis by simp
  qed
  have 2: "executed (snd (debounce_run w fn [Run (Upto t1), Call a, Run (Upto t2), Call b, Run Forever]
              (debounce f0 c))) = [(t1 + w, a), (t2 + w, b)] \<and>
            fn_state (snd (debounce_run w fn [Run (Upto t1), Call a, Run (Upto t2), Call b, Run Forever]
              (debounce f0 c))) = left (fn b (left (fn a f0)))" if "t1 + w < t2"
  proof -
    have "arrive (Upto t1) c = t1" "within (Upto t2) (t1 + w)" "arrive (Upto t2) (t1 + w) = t2"
      using that assms(2) by simp_all
    from debounce_two_calls[OF assms(1) this, of fn a b f0] show ?thesis .
  qed
  from 1 2 debounce_call_at_due[OF assms, of fn a b f0] show ?thesis by blast
qed

theorem debounce_isolation_witness:
  "(0::int) \<le> 200 \<and> (0::int) \<le> 0 \<and> (0::int) + 200 < 300 \<and>
   executed (snd (debounce_run 200 records
       (arrivals [(0, ''a''), (300, ''b'')] @ [Run Forever]) (debounce [] 0))) =
     [(200, ''a''), (500, ''b'')] \<and>
   fn_state (snd (debounce_run 200 records
       (arrivals [(0, ''a''), (300, ''b'')] @ [Run Forever]) (debounce [] 0))) = [''a'', ''b''] \<and>
   executed (snd (debounce_run 200 records
       [Run (Upto 0), Call ''a'', Run (Upto 300), Call ''b'', Run Forever] (debounce [] 0))) =
     [(200, ''a''), (500, ''b'')] \<and>
   executed (snd (debounce_run 200 records
       (arrivals [(0, ''a''), (0 + 200, ''b'')] @ [Run Forever]) (debounce [] 0))) =
     [(0 + 200 + 200, ''b'')] \<and>
   fn_state (snd (debounce_run 200 records
       (arrivals [(0, ''a''), (0 + 200, ''b'')] @ [Run Forever]) (debounce [] 0))) = [''b'']"
proof -
  have h: "(0::int) \<le> 200" "(0::int) \<le> 0" and lt: "(0::int) + 200 < 300" by simp_all
  note T = debounce_isolation[OF h, where fn = records and a = "''a''" and b = "''b''"
      and ?f0.0 = "[]" and ?t2.0 = 300]
  from T lt have
    "executed (snd (debounce_run 200 records
       (arrivals [(0, ''a''), (300, ''b'')] @ [Run Forever]) (debounce [] 0))) =
     [(0 + 200, ''a''), (300 + 200, ''b'')]"
    "fn_state (snd (debounce_run 200 records
       (arrivals [(0, ''a''), (300, ''b'')] @ [Run Forever]) (debounce [] 0))) =
     left (records ''b'' (left (records ''a'' [])))"
    "executed (snd (debounce_run 200 records
       [Run (Upto 0), Call ''a'', Run (Upto 300), Call ''b'', Run Forever] (debounce [] 0))) =
     [(0 + 200, ''a''), (300 + 200, ''b'')]"
    "executed (snd (debounce_run 200 records
       (arrivals [(0, ''a''), (0 + 200, ''b'')] @ [Run Forever]) (debounce [] 0))) =
     [(0 + 200 + 200, ''b'')]"
    "fn_state (snd (debounce_run 200 records
       (arrivals [(0, ''a''), (0 + 200, ''b'')] @ [Run Forever]) (debounce [] 0))) =
     left (records ''b'' [])"
    by blast+
  then show ?thesis using h lt by (simp add: records_def del: debounce_run_Cons arrivals.simps)
qed

theorem debounce_isolation_counterexample:
  "executed (snd (debounce_run 200 records
       (arrivals [(0, ''a''), (200, ''b'')] @ [Run Forever]) (debounce [] 0))) = [(400, ''b'')] \<and>
   executed (snd (debounce_run 200 records
       (arrivals [(0, ''a''), (200, ''b'')] @ [Run Forever]) (debounce [] 0))) \<noteq>
     [(200, ''a''), (400, ''b'')] \<and>
   fn_state (snd (debounce_run 200 records
       (arrivals [(0, ''a''), (200, ''b'')] @ [Run Forever]) (debounce [] 0))) = [''b'']"
  by code_simp

section \<open>Facts about the throttler\<close>

lemma throttle_run_Nil [simp]: "throttle_run w fn [] s = s"
  by (simp add: throttle_run_def)

lemma throttle_run_Cons [simp]:
  "throttle_run w fn (ev # evs) s = throttle_run w fn evs (throttle_step w fn ev s)"
  by (simp add: throttle_run_def)

lemma throttle_run_append:
  "throttle_run w fn (evs @ evs') s = throttle_run w fn evs' (throttle_run w fn evs s)"
  by (simp add: throttle_run_def)

lemma throttled_scheduled:
  "scheduled (snd s) \<Longrightarrow> throttled w a s = (fst s, (snd s)\<lparr>new_args := Some a\<rparr>)"
  by (simp add: throttled_def)

lemma throttled_unscheduled:
  "\<not> scheduled (snd s) \<Longrightarrow> throttled w a s =
     (snd (Timer_init (max 0 (w - (clock (fst s) - time_of_last_call (snd s)))) () (fst s)),
      (snd s)\<lparr>new_args := Some a, scheduled := True\<rparr>)"
  by (simp add: throttled_def Let_def split_beta)

lemma throttled_same [simp]:
  "executed (snd (throttled w a s)) = executed (snd s)"
  "fn_state (snd (throttled w a s)) = fn_state (snd s)"
  "time_of_last_call (snd (throttled w a s)) = time_of_last_call (snd s)"
  "new_args (snd (throttled w a s)) = Some a"
  "clock (fst (throttled w a s)) = clock (fst s)"
  by (cases "scheduled (snd s)"; simp add: throttled_scheduled throttled_unscheduled)+

lemma throttle_call_it_executed:
  "new_args u = Some a \<Longrightarrow> executed (throttle_call_it fn c t u) = executed u @ [(t, a)]"
  by (simp add: throttle_call_it_def invoke_def Let_def)

lemma throttle_call_it_fn_state:
  "new_args u = Some a \<Longrightarrow> fn_state (throttle_call_it fn c t u) = left (fn a (fn_state u))"
  by (simp add: throttle_call_it_def invoke_def Let_def)

lemma throttle_call_it_raised:
  "new_args u = Some a \<Longrightarrow> raised (fn a (fn_state u)) \<Longrightarrow>
     scheduled (throttle_call_it fn c t u) = scheduled u"
  by (simp add: throttle_call_it_def invoke_def Let_def)

lemma throttle_call_it_same [simp]:
  "new_args (throttle_call_it fn c t u) = new_args u"
  "time_of_last_call (throttle_call_it fn c t u) = t"
  by (simp_all add: throttle_call_it_def invoke_def Let_def split: option.splits)

lemma throttle_inv_init: "throttle_inv (throttle f0 c)"
  by (simp add: throttle_inv_def throttle_def pending_def)

lemma throttle_inv_cases:
  assumes "throttle_inv s"
  obtains "pending (fst s) = []"
  | k where "pending (fst s) = [k]" "scheduled (snd s)" "new_args (snd s) \<noteq> None"
  using assms by (auto simp: throttle_inv_def split: list.splits)

lemma throttle_inv_throttled:
  assumes "throttle_inv s"
  shows "throttle_inv (throttled w a s)"
proof (cases "scheduled (snd s)")
  case True
  then show ?thesis using assms
    by (auto simp: throttled_scheduled throttle_inv_def split: list.splits)
next
  case False
  with assms have "pending (fst s) = []" by (auto elim: throttle_inv_cases)
  with False show ?thesis
    by (simp add: throttled_unscheduled throttle_inv_def pending_Timer_init)
qed

lemma throttle_inv_job:
  assumes "throttle_inv s" "i \<in> set (pending (fst s))"
  shows "pending (fst (job cb i s)) = []"
  using assms by (auto simp: pending_job elim!: throttle_inv_cases)

lemma throttle_inv_run_loop:
  assumes "throttle_inv s"
  shows "throttle_inv (run_loop cb h s)"
proof (cases rule: throttle_inv_cases[OF assms])
  case 1
  then show ?thesis by (simp add: run_loop_idle throttle_inv_def)
next
  case (2 k)
  have "pending (fst (job cb k s)) = []" using 2 by (simp add: pending_job)
  then show ?thesis using 2 assms
    by (simp add: run_loop_single throttle_inv_def)
qed

lemma throttle_inv_run:
  "throttle_inv s \<Longrightarrow> throttle_inv (throttle_run w fn evs s)"
proof (induction evs arbitrary: s)
  case Nil
  then show ?case by simp
next
  case (Cons ev evs)
  have "throttle_inv (throttle_step w fn ev s)"
    using Cons.prems by (cases ev) (simp_all add: throttle_inv_throttled throttle_inv_run_loop)
  then show ?case using Cons.IH by simp
qed

lemma throttle_first_state:
  "fst (throttled w a (throttle f0 c)) =
     \<lparr>clock = c, timers = [\<lparr>timeout = max 0 (w - c), callback = (), due = c + max 0 (w - c),
        task = Pending, runs = 0\<rparr>]\<rparr>"
  "snd (throttled w a (throttle f0 c)) =
     \<lparr>fn_state = f0, executed = [], time_of_last_call = 0, scheduled = True, new_args = Some a\<rparr>"
  by (simp_all add: throttled_def throttle_def Timer_init_def Let_def)

lemma throttle_first_pending: "pending (fst (throttled w a (throttle f0 c))) = [0]"
  by (simp add: throttle_first_state pending_def)

lemma throttle_calls_scheduled:
  assumes "scheduled (snd s)"
  shows "throttle_run w fn (map Call bs) s =
           (fst s, (snd s)\<lparr>new_args := (if bs = [] then new_args (snd s) else Some (last bs))\<rparr>)"
  using assms
proof (induction bs arbitrary: s)
  case Nil
  then show ?case by simp
next
  case (Cons b bs)
  have "scheduled (snd (throttled w b s))" using Cons.prems by (simp add: throttled_scheduled)
  from Cons.IH[OF this] show ?case using Cons.prems by (simp add: throttled_scheduled)
qed

lemma throttle_fire_single:
  assumes "pending (fst s) = [k]" "new_args (snd s) = Some b" "clock (fst s) \<le> due (timers (fst s) ! k)"
  shows "executed (snd (run_loop (throttle_call_it fn) Forever s)) =
           executed (snd s) @ [(due (timers (fst s) ! k), b)]"
proof -
  have "max (clock (fst s)) (due (timers (fst s) ! k)) = due (timers (fst s) ! k)"
    using assms(3) by simp
  then show ?thesis
    using assms(1,2) by (simp add: run_loop_single snd_job throttle_call_it_executed)
qed

lemma throttle_first_burst:
  "executed (snd (throttle_run w fn (Call a # map Call bs @ [Run Forever]) (throttle f0 c))) =
     [(c + max 0 (w - c), last (a # bs))]"
proof -
  let ?s1 = "throttled w a (throttle f0 c)"
  let ?s2 = "throttle_run w fn (map Call bs) ?s1"
  have sch: "scheduled (snd ?s1)" by (simp add: throttle_first_state)
  have s2: "?s2 = (fst ?s1, (snd ?s1)\<lparr>new_args := Some (last (a # bs))\<rparr>)"
    by (simp add: throttle_calls_scheduled[OF sch] throttle_first_state)
  have p: "pending (fst ?s2) = [0]" by (simp add: s2 throttle_first_pending)
  have n: "new_args (snd ?s2) = Some (last (a # bs))" by (simp add: s2)
  have d: "due (timers (fst ?s2) ! 0) = c + max 0 (w - c)" "clock (fst ?s2) = c"
    "executed (snd ?s2) = []"
    by (simp_all add: s2 throttle_first_state)
  have "clock (fst ?s2) \<le> due (timers (fst ?s2) ! 0)" unfolding d by simp
  from throttle_fire_single[OF p n this, of fn]
  have "executed (snd (run_loop (throttle_call_it fn) Forever ?s2)) = [(c + max 0 (w - c), last (a # bs))]"
    unfolding d by simp
  then show ?thesis by (simp add: throttle_run_append)
qed

lemma throttle_first_burst_state:
  "fn_state (snd (throttle_run w fn (Call a # map Call bs @ [Run Forever]) (throttle f0 c))) =
     left (fn (last (a # bs)) f0)"
proof -
  let ?s1 = "throttled w a (throttle f0 c)"
  let ?s2 = "throttle_run w fn (map Call bs) ?s1"
  have sch: "scheduled (snd ?s1)" by (simp add: throttle_first_state)
  have s2: "?s2 = (fst ?s1, (snd ?s1)\<lparr>new_args := Some (last (a # bs))\<rparr>)"
    by (simp add: throttle_calls_scheduled[OF sch] throttle_first_state)
  have p: "pending (fst ?s2) = [0]" by (simp add: s2 throttle_first_pending)
  have n: "new_args (snd ?s2) = Some (last (a # bs))" by (simp add: s2)
  have f: "fn_state (snd ?s2) = f0" by (simp add: s2 throttle_first_state)
  have "fn_state (snd (run_loop (throttle_call_it fn) Forever ?s2)) = left (fn (last (a # bs)) f0)"
    using n f by (simp add: run_loop_single[OF p] snd_job throttle_call_it_fn_state)
  then show ?thesis by (simp add: throttle_run_append)
qed

section \<open>The throttler: coalescing, the first call and the trace\<close>

text \<open>
  Claim C3 (throttle coalescing and latest arguments). A call of a throttled wrapper
  while \<open>scheduled\<close> holds changes the stored arguments and nothing else: no timer is
  created. When a timer of the wrapper fires, the wrapped function is executed with the
  arguments stored at that instant: the state it acts on becomes the one a call with
  those arguments leaves. On a fresh wrapper, after the call \<open>a\<close> that sets \<open>scheduled\<close>
  and further calls \<open>bs\<close> before the timer fires, the one execution has the arguments of
  the last call, not those of \<open>a\<close>.
\<close>

theorem throttle_coalescing:
  "(scheduled (snd s) \<longrightarrow> throttled w b s = (fst s, (snd s)\<lparr>new_args := Some b\<rparr>)) \<and>
   (new_args (snd s) = Some b \<longrightarrow>
      executed (snd (job (throttle_call_it fn) i s)) =
        executed (snd s) @ [(max (clock (fst s)) (due (timers (fst s) ! i)), b)] \<and>
      fn_state (snd (job (throttle_call_it fn) i s)) = left (fn b (fn_state (snd s)))) \<and>
   executed (snd (throttle_run w fn (Call a # map Call bs @ [Run Forever]) (throttle f0 c))) =
     [(c + max 0 (w - c), last (a # bs))] \<and>
   fn_state (snd (throttle_run w fn (Call a # map Call bs @ [Run Forever]) (throttle f0 c))) =
     left (fn (last (a # bs)) f0)"
  by (simp add: throttled_scheduled snd_job throttle_call_it_executed throttle_call_it_fn_state
      throttle_first_burst throttle_first_burst_state del: throttle_run_Cons)

theorem throttle_coalescing_witness:
  "scheduled (snd (throttled 100 ''a'' (throttle ([] :: string list) 0))) \<and>
   throttled 100 ''b'' (throttled 100 ''a'' (throttle ([] :: string list) 0)) =
     (fst (throttled 100 ''a'' (throttle ([] :: string list) 0)),
      (snd (throttled 100 ''a'' (throttle ([] :: string list) 0)))\<lparr>new_args := Some ''b''\<rparr>) \<and>
   new_args (snd (throttled 100 ''b'' (throttled 100 ''a'' (throttle ([] :: string list) 0)))) = Some ''b'' \<and>
   executed (snd (job (throttle_call_it records) 0
      (throttled 100 ''b'' (throttled 100 ''a'' (throttle ([] :: string list) 0))))) = [(100, ''b'')] \<and>
   fn_state (snd (job (throttle_call_it records) 0
      (throttled 100 ''b'' (throttled 100 ''a'' (throttle ([] :: string list) 0))))) = [''b''] \<and>
   executed (snd (throttle_run 100 records (Call ''a'' # map Call [''b''] @ [Run Forever])
      (throttle ([] :: string list) 0))) = [(100, ''b'')] \<and>
   fn_state (snd (throttle_run 100 records (Call ''a'' # map Call [''b''] @ [Run Forever])
      (throttle ([] :: string list) 0))) = [''b'']"
proof -
  let ?s = "throttled 100 ''a'' (throttle [] (0::int)) :: (string, string list) throttler"
  let ?s' = "throttled 100 ''b'' ?s"
  have h1: "scheduled (snd ?s)" by (simp add: throttle_first_state)
  have h2: "new_args (snd ?s') = Some ''b''" by simp
  have e: "executed (snd ?s') = []" "clock (fst ?s') = 0" "due (timers (fst ?s') ! 0) = 100"
    "fn_state (snd ?s') = []"
    by code_simp+
  note T1 = throttle_coalescing[where s = ?s and w = 100 and b = "''b''" and fn = records and i = 0
      and a = "''a''" and bs = "[''b'']" and ?f0.0 = "[]" and c = 0]
  note T2 = throttle_coalescing[where s = ?s' and w = 100 and b = "''b''" and fn = records and i = 0
      and a = "''a''" and bs = "[''b'']" and ?f0.0 = "[]" and c = 0]
  have c1: "throttled 100 ''b'' ?s = (fst ?s, (snd ?s)\<lparr>new_args := Some ''b''\<rparr>)"
    by (rule T1[THEN conjunct1, THEN mp, OF h1])
  have c3: "executed (snd (throttle_run 100 records (Call ''a'' # map Call [''b''] @ [Run Forever])
      (throttle [] 0))) = [(100, ''b'')]"
    using T1[THEN conjunct2, THEN conjunct2, THEN conjunct1] by simp
  have c4: "fn_state (snd (throttle_run 100 records (Call ''a'' # map Call [''b''] @ [Run Forever])
      (throttle [] 0))) = [''b'']"
    using T1[THEN conjunct2, THEN conjunct2, THEN conjunct2] by (simp add: records_def)
  note F = T2[THEN conjunct2, THEN conjunct1, THEN mp, OF h2]
  have c2: "executed (snd (job (throttle_call_it records) 0 ?s')) = [(100, ''b'')]"
    using F[THEN conjunct1] unfolding e by simp
  have c5: "fn_state (snd (job (throttle_call_it records) 0 ?s')) = [''b'']"
    using F[THEN conjunct2] unfolding e by (simp add: records_def)
  show ?thesis using h1 h2 c1 c2 c3 c4 c5 by blast
qed

text \<open>
  Claim C2 (throttle, first call), as amended. The first call of a throttled wrapper,
  made when the clock reads \<open>c\<close>, finds \<open>time_of_last_call = 0\<close> and computes the delay
  \<open>max 0 (w - c)\<close>: the wrapped function is first executed that long after the call. The
  delay is the full wait when the clock reads 0 at the first call, and it is 0 when the
  clock reads \<open>w\<close> or more, as the seconds since 1970 that \<^verbatim>\<open>time()\<close> returns do.
\<close>

theorem throttle_first_call:
  "timers (fst (throttled w a (throttle f0 c))) =
     [\<lparr>timeout = max 0 (w - c), callback = (), due = c + max 0 (w - c), task = Pending, runs = 0\<rparr>] \<and>
   executed (snd (throttle_run w fn [Call a, Run Forever] (throttle f0 c))) = [(c + max 0 (w - c), a)]"
  using throttle_first_burst[of w fn a "[]" f0 c]
  by (simp add: throttle_first_state)

theorem throttle_first_call_witness:
  "timers (fst (throttled 100 ''a'' (throttle () 0))) =
     [\<lparr>timeout = 100, callback = (), due = 100, task = Pending, runs = 0\<rparr>] \<and>
   executed (snd (throttle_run 100 succeeds [Call ''a'', Run Forever] (throttle () 0))) = [(100, ''a'')]"
  using throttle_first_call[of 100 "''a''" "()" 0 succeeds]
  by simp

theorem throttle_first_call_counterexample:
  "timeout (hd (timers (fst (throttled 100 ''a'' (throttle () 1000))))) = 0 \<and>
   timeout (hd (timers (fst (throttled 100 ''a'' (throttle () 1000))))) \<noteq> 100 \<and>
   executed (snd (throttle_run 100 succeeds [Call ''a'', Run Forever] (throttle () 1000))) =
     [(1000, ''a'')] \<and>
   executed (snd (throttle_run 100 succeeds [Call ''a'', Run Forever] (throttle () 1000))) \<noteq>
     [(1100, ''a'')]"
  by code_simp









section \<open>Facts about single timers\<close>

lemma timers_job:
  "timers (fst (job cb i s)) =
     (timers (fst s))[i := (timers (fst s) ! i)\<lparr>task := Fired, runs := Suc (runs (timers (fst s) ! i))\<rparr>]"
  by (simp add: job_def Let_def)

lemma run_loop_nth:
  assumes "k < length (timers (fst s))" and "Q (timers (fst s) ! k)"
    and "\<And>T. Q T \<Longrightarrow> task T = Pending \<Longrightarrow> Q (T\<lparr>task := Fired, runs := Suc (runs T)\<rparr>)"
  shows "k < length (timers (fst (run_loop cb h s))) \<and> Q (timers (fst (run_loop cb h s)) ! k)"
proof (rule run_loop_preserves[where P = "\<lambda>s. k < length (timers (fst s)) \<and> Q (timers (fst s) ! k)"])
  show "k < length (timers (fst s)) \<and> Q (timers (fst s) ! k)" using assms(1,2) by simp
next
  fix s :: "'a loop \<times> 'b" and i
  assume P: "k < length (timers (fst s)) \<and> Q (timers (fst s) ! k)"
    and i: "i \<in> set (pending (fst s))"
  show "k < length (timers (fst (job cb i s))) \<and> Q (timers (fst (job cb i s)) ! k)"
  proof (cases "i = k")
    case True
    then have "task (timers (fst s) ! k) = Pending" using i by (simp add: pending_iff)
    with P have "Q ((timers (fst s) ! k)\<lparr>task := Fired, runs := Suc (runs (timers (fst s) ! k))\<rparr>)"
      by (intro assms(3)) simp_all
    then show ?thesis using P True by (simp add: timers_job)
  next
    case False
    then show ?thesis using P by (simp add: timers_job)
  qed
next
  fix s :: "'a loop \<times> 'b" and t
  assume "k < length (timers (fst s)) \<and> Q (timers (fst s) ! k)"
  then show "k < length (timers (fst ((fst s)\<lparr>clock := t\<rparr>, snd s))) \<and>
      Q (timers (fst ((fst s)\<lparr>clock := t\<rparr>, snd s)) ! k)"
    by simp
qed

lemma length_run_loop [simp]: "length (timers (fst (run_loop cb h s))) = length (timers (fst s))"
  by (rule run_loop_preserves[where P = "\<lambda>s'. length (timers (fst s')) = length (timers (fst s))"])
    simp_all

lemma run_loop_all:
  assumes "\<forall>T\<in>set (timers (fst s)). Q T"
    and "\<And>T. Q T \<Longrightarrow> task T = Pending \<Longrightarrow> Q (T\<lparr>task := Fired, runs := Suc (runs T)\<rparr>)"
  shows "\<forall>T\<in>set (timers (fst (run_loop cb h s))). Q T"
proof
  fix T assume "T \<in> set (timers (fst (run_loop cb h s)))"
  then obtain k where k: "k < length (timers (fst s))" "T = timers (fst (run_loop cb h s)) ! k"
    by (auto simp: in_set_conv_nth)
  then have "Q (timers (fst s) ! k)" using assms(1) by simp
  from run_loop_nth[of k s Q cb h, OF k(1) this assms(2)] k(2) show "Q T" by simp
qed

lemma run_loop_Forever_done:
  "\<forall>T\<in>set (timers (fst (run_loop cb Forever s))). task T \<noteq> Pending"
proof
  fix T assume "T \<in> set (timers (fst (run_loop cb Forever s)))"
  then obtain k where k: "k < length (timers (fst (run_loop cb Forever s)))"
      "T = timers (fst (run_loop cb Forever s)) ! k"
    by (auto simp: in_set_conv_nth)
  have "k \<notin> set (pending (fst (run_loop cb Forever s)))" by (simp add: run_loop_Forever)
  then show "task T \<noteq> Pending" using k by (simp add: pending_iff)
qed

lemma sound_fired: "sound T \<Longrightarrow> task T = Pending \<Longrightarrow> sound (T\<lparr>task := Fired, runs := Suc (runs T)\<rparr>)"
  by (simp add: sound_def counted_def)

lemma throttle_sound_step:
  assumes "\<forall>T\<in>set (timers (fst s)). sound T"
  shows "\<forall>T\<in>set (timers (fst (throttle_step w fn ev s))). sound T"
proof (cases ev)
  case (Call a)
  show ?thesis
  proof (cases "scheduled (snd s)")
    case True
    then show ?thesis using assms Call by (simp add: throttled_scheduled)
  next
    case False
    then show ?thesis using assms Call
      by (auto simp: throttled_unscheduled Timer_init_def sound_def counted_def)
  qed
next
  case (Run h)
  then show ?thesis using run_loop_all[OF assms sound_fired] by simp
qed

lemma throttle_sound_run:
  assumes "\<forall>T\<in>set (timers (fst s)). sound T"
  shows "\<forall>T\<in>set (timers (fst (throttle_run w fn evs s))). sound T"
  using assms
proof (induction evs arbitrary: s)
  case Nil
  then show ?case by simp
next
  case (Cons ev evs)
  from Cons.IH[OF throttle_sound_step[OF Cons.prems]] show ?case by simp
qed

lemma throttle_inv_length: "throttle_inv s \<Longrightarrow> length (pending (fst s)) \<le> 1"
  by (auto elim: throttle_inv_cases)

section \<open>The throttler: no cancellation, and the failure of the wrapped function\<close>

text \<open>
  Claim C8 (the throttler never cancels). In every state a throttled wrapper reaches
  from a fresh one, by calls and runs of the loop in any order, no timer is cancelled and
  at most one is pending; once the loop has run until no timer is pending, every timer
  the wrapper created has fired, its callback called once. A call creates a timer when
  \<open>scheduled\<close> is false and none when it is true.
\<close>

theorem throttle_never_cancels:
  "(\<forall>T\<in>set (timers (fst (throttle_run w fn evs (throttle f0 c)))). task T \<noteq> Cancelled) \<and>
   length (pending (fst (throttle_run w fn evs (throttle f0 c)))) \<le> 1 \<and>
   (\<forall>T\<in>set (timers (fst (throttle_run w fn (evs @ [Run Forever]) (throttle f0 c)))).
      task T = Fired \<and> runs T = 1) \<and>
   length (timers (fst (throttled w a s))) =
     (if scheduled (snd s) then length (timers (fst s)) else Suc (length (timers (fst s))))"
proof -
  have init: "\<forall>T\<in>set (timers (fst (throttle f0 c :: ('a, 'b) throttler))). sound T"
    by (simp add: throttle_def)
  have all: "\<forall>T\<in>set (timers (fst (throttle_run w fn evs' (throttle f0 c)))). sound T" for evs'
    using init by (rule throttle_sound_run)
  have 1: "\<forall>T\<in>set (timers (fst (throttle_run w fn evs (throttle f0 c)))). task T \<noteq> Cancelled"
    using all[of evs] by (simp add: sound_def)
  have 2: "length (pending (fst (throttle_run w fn evs (throttle f0 c)))) \<le> 1"
    by (intro throttle_inv_length throttle_inv_run throttle_inv_init)
  have 3: "\<forall>T\<in>set (timers (fst (throttle_run w fn (evs @ [Run Forever]) (throttle f0 c)))).
      task T = Fired \<and> runs T = 1"
  proof
    fix T assume T: "T \<in> set (timers (fst (throttle_run w fn (evs @ [Run Forever]) (throttle f0 c))))"
    then have "sound T" using all[of "evs @ [Run Forever]"] by blast
    moreover have "task T \<noteq> Pending"
      using T run_loop_Forever_done[of "throttle_call_it fn" "throttle_run w fn evs (throttle f0 c)"]
      by (simp add: throttle_run_append)
    ultimately show "task T = Fired \<and> runs T = 1"
      by (cases "task T") (simp_all add: sound_def counted_def)
  qed
  have 4: "length (timers (fst (throttled w a s))) =
     (if scheduled (snd s) then length (timers (fst s)) else Suc (length (timers (fst s))))"
    by (simp add: throttled_scheduled throttled_unscheduled)
  from 1 2 3 4 show ?thesis by blast
qed

theorem throttle_never_cancels_witness:
  "task (timers (fst (throttle_run 100 succeeds [Call ''a'', Call ''b'', Run (Upto 50)] (throttle () 0))) ! 0)
     \<noteq> Cancelled \<and>
   length (timers (fst (throttle_run 100 succeeds [Call ''a'', Call ''b'', Run (Upto 50)] (throttle () 0)))) = 1 \<and>
   length (pending (fst (throttle_run 100 succeeds [Call ''a'', Call ''b'', Run (Upto 50)] (throttle () 0)))) \<le> 1 \<and>
   task (timers (fst (throttle_run 100 succeeds ([Call ''a'', Call ''b'', Run (Upto 50)] @ [Run Forever])
      (throttle () 0))) ! 0) = Fired \<and>
   runs (timers (fst (throttle_run 100 succeeds ([Call ''a'', Call ''b'', Run (Upto 50)] @ [Run Forever])
      (throttle () 0))) ! 0) = 1"
proof -
  let ?evs = "[Call ''a'', Call ''b'', Run (Upto 50)]"
  let ?s = "throttle_run 100 succeeds ?evs (throttle () 0)"
  let ?s' = "throttle_run 100 succeeds (?evs @ [Run Forever]) (throttle () 0)"
  note T = throttle_never_cancels[where w = 100 and fn = succeeds and evs = ?evs and ?f0.0 = "()"
      and c = 0 and a = "''a''" and s = "throttle () 0"]
  have len: "length (timers (fst ?s)) = 1" "length (timers (fst ?s')) = 1" by code_simp+
  then have m: "timers (fst ?s) ! 0 \<in> set (timers (fst ?s))" "timers (fst ?s') ! 0 \<in> set (timers (fst ?s'))"
    by (simp_all del: throttle_run_Cons append.simps)
  show ?thesis using T m len(1) by (simp del: throttle_run_Cons append.simps)
qed

lemma wedged_step:
  assumes "wedged s"
  shows "wedged (throttle_step w fn ev s)"
    and "executed (snd (throttle_step w fn ev s)) = executed (snd s)"
    and "fn_state (snd (throttle_step w fn ev s)) = fn_state (snd s)"
    and "timers (fst (throttle_step w fn ev s)) = timers (fst s)"
proof -
  from assms have s: "scheduled (snd s)" "pending (fst s) = []" by (simp_all add: wedged_def)
  show "wedged (throttle_step w fn ev s)"
    using s by (cases ev) (simp_all add: wedged_def throttled_scheduled run_loop_idle)
  show "executed (snd (throttle_step w fn ev s)) = executed (snd s)"
    using s by (cases ev) (simp_all add: run_loop_idle)
  show "fn_state (snd (throttle_step w fn ev s)) = fn_state (snd s)"
    using s by (cases ev) (simp_all add: run_loop_idle)
  show "timers (fst (throttle_step w fn ev s)) = timers (fst s)"
    using s by (cases ev) (simp_all add: throttled_scheduled run_loop_idle)
qed

lemma wedged_run:
  assumes "wedged s"
  shows "wedged (throttle_run w fn evs s) \<and>
         executed (snd (throttle_run w fn evs s)) = executed (snd s) \<and>
         fn_state (snd (throttle_run w fn evs s)) = fn_state (snd s) \<and>
         timers (fst (throttle_run w fn evs s)) = timers (fst s)"
  using assms
proof (induction evs arbitrary: s)
  case Nil
  then show ?case by simp
next
  case (Cons ev evs)
  note st = wedged_step[OF Cons.prems, of w fn ev]
  from Cons.IH[OF st(1)] show ?case by (simp add: st)
qed

text \<open>
  Claim C9 (the throttler after a failure of the wrapped function). A throttled wrapper
  has reached a state, from a fresh one, in which its timer \<open>i\<close> is the next to fire and
  the stored arguments are \<open>a\<close>; the timer fires, and the wrapped function raises. Then
  \<open>scheduled\<close> is still true, and it stays true whatever calls and runs of the loop
  \<open>evs\<close> follow: the wrapped function is not executed again, no timer is created, and a
  call changes the stored arguments and nothing else.
\<close>

theorem throttle_wedges:
  fixes fn :: "'a \<Rightarrow> 'f \<Rightarrow> 'f outcome" and f0 :: 'f and evs0 evs :: "'a event list"
    and w c :: int and a b :: 'a and i :: nat
  defines "s \<equiv> throttle_run w fn evs0 (throttle f0 c)"
  defines "s' \<equiv> job (throttle_call_it fn) i s"
  defines "s'' \<equiv> throttle_run w fn evs s'"
  assumes "next_due (fst s) = Some i" and "new_args (snd s) = Some a"
    and "raised (fn a (fn_state (snd s)))"
  shows "executed (snd s') = executed (snd s) @ [(max (clock (fst s)) (due (timers (fst s) ! i)), a)] \<and>
         scheduled (snd s') \<and>
         scheduled (snd s'') \<and>
         executed (snd s'') = executed (snd s') \<and>
         timers (fst s'') = timers (fst s') \<and>
         throttled w b s'' = (fst s'', (snd s'')\<lparr>new_args := Some b\<rparr>)"
proof -
  have inv: "throttle_inv s" unfolding s_def by (intro throttle_inv_run throttle_inv_init)
  have i: "i \<in> set (pending (fst s))" using assms(4) by (rule next_due_in_pending)
  then have sch: "scheduled (snd s)" using inv by (auto elim: throttle_inv_cases)
  have e: "executed (snd s') = executed (snd s) @ [(max (clock (fst s)) (due (timers (fst s) ! i)), a)]"
    unfolding s'_def using assms(5) by (simp add: snd_job throttle_call_it_executed)
  have "scheduled (snd s')"
    unfolding s'_def using assms(5,6) sch by (simp add: snd_job throttle_call_it_raised)
  moreover have "pending (fst s') = []" unfolding s'_def using inv i by (rule throttle_inv_job)
  ultimately have wd: "wedged s'" by (simp add: wedged_def)
  note r = wedged_run[OF wd, of w fn evs, folded s''_def]
  have "scheduled (snd s'')" using r by (simp add: wedged_def)
  then have "throttled w b s'' = (fst s'', (snd s'')\<lparr>new_args := Some b\<rparr>)"
    by (rule throttled_scheduled)
  then show ?thesis using e wd r by (simp add: wedged_def)
qed

theorem throttle_wedges_witness:
  "next_due (fst (throttle_run 100 fails [Call ''a''] (throttle () 0))) = Some 0 \<and>
   new_args (snd (throttle_run 100 fails [Call ''a''] (throttle () 0))) = Some ''a'' \<and>
   raised (fails ''a'' (fn_state (snd (throttle_run 100 fails [Call ''a''] (throttle () 0))))) \<and>
   executed (snd (job (throttle_call_it fails) 0 (throttle_run 100 fails [Call ''a''] (throttle () 0)))) =
     [(100, ''a'')] \<and>
   scheduled (snd (job (throttle_call_it fails) 0 (throttle_run 100 fails [Call ''a''] (throttle () 0)))) \<and>
   scheduled (snd (throttle_run 100 fails [Call ''b'', Run (Upto 500), Call ''c'', Run Forever]
     (job (throttle_call_it fails) 0 (throttle_run 100 fails [Call ''a''] (throttle () 0))))) \<and>
   executed (snd (throttle_run 100 fails [Call ''b'', Run (Upto 500), Call ''c'', Run Forever]
     (job (throttle_call_it fails) 0 (throttle_run 100 fails [Call ''a''] (throttle () 0))))) =
     [(100, ''a'')]"
proof -
  let ?s = "throttle_run 100 fails [Call ''a''] (throttle () 0) :: (string, unit) throttler"
  have h1: "next_due (fst ?s) = Some 0" by code_simp
  have h2: "new_args (snd ?s) = Some ''a''" by code_simp
  have h3: "raised (fails ''a'' (fn_state (snd ?s)))" by (simp add: fails_def)
  have e: "executed (snd ?s) = []" "clock (fst ?s) = 0" "due (timers (fst ?s) ! 0) = 100"
    by code_simp+
  note T = throttle_wedges[where w = 100 and fn = fails and ?evs0.0 = "[Call ''a'']" and ?f0.0 = "()"
      and c = 0 and i = 0 and a = "''a''" and b = "''d''"
      and evs = "[Call ''b'', Run (Upto 500), Call ''c'', Run Forever]", OF h1 h2 h3]
  show ?thesis using h1 h2 h3 T unfolding e by (simp del: throttle_run_Cons)
qed

section \<open>The debouncer: one pending timer, and the failure of the wrapped function\<close>

lemma debounce_inv_run_loop:
  assumes "debounce_inv s"
  shows "debounce_inv (run_loop cb h s)"
proof (cases rule: debounce_inv_cases[OF assms])
  case 1
  then show ?thesis by (intro idle_inv) (simp add: run_loop_idle)
next
  case (2 k)
  show ?thesis
  proof (cases "within h (due (timers (fst s) ! k))")
    case True
    have "pending (fst (job cb k s)) = []" using 2 by (simp add: pending_job)
    then show ?thesis using 2 True by (intro idle_inv) (simp add: run_loop_single)
  next
    case False
    then show ?thesis using 2 by (simp add: run_loop_single debounce_inv_def)
  qed
qed

lemma debounce_inv_step: "debounce_inv s \<Longrightarrow> debounce_inv (debounce_step w fn ev s)"
  by (cases ev) (auto intro: armed_inv debounced_armed debounce_inv_run_loop)

lemma debounce_inv_run: "debounce_inv s \<Longrightarrow> debounce_inv (debounce_run w fn evs s)"
  by (induction evs arbitrary: s) (simp_all add: debounce_inv_step)

lemma debounce_inv_length: "debounce_inv s \<Longrightarrow> length (pending (fst s)) \<le> 1"
  by (auto elim: debounce_inv_cases)

lemma debounced_pending:
  "debounce_inv s \<Longrightarrow> pending (fst (debounced w a s)) = [length (timers (fst s))]"
  using schedule_new_armed(2)[OF cancel_previous_idle, of s w a] by (simp add: debounced_def)

text \<open>
  Claim C6 (the debouncer has at most one pending timer). In every state a debounced
  wrapper reaches from a fresh one, by calls and runs of the loop in any order, at most
  one timer is pending. A call is the cancellation of the timer the wrapper refers to
  followed by the creation of a new one: between the two no timer is pending, and after
  the call the new timer is the one pending timer. The firing of a pending timer leaves
  none pending, and the cancellation of any timer leaves at most one.
\<close>

theorem debounce_single_pending:
  fixes fn :: "'a \<Rightarrow> 'f \<Rightarrow> 'f outcome" and f0 :: 'f and evs :: "'a event list"
    and w c :: int and a :: 'a and k :: nat
  defines "s \<equiv> debounce_run w fn evs (debounce f0 c)"
  shows "length (pending (fst s)) \<le> 1 \<and>
         debounced w a s = schedule_new w a (cancel_previous s) \<and>
         pending (fst (cancel_previous s)) = [] \<and>
         pending (fst (debounced w a s)) = [length (timers (fst s))] \<and>
         (\<forall>i\<in>set (pending (fst s)). pending (fst (job (debounce_call_it fn) i s)) = []) \<and>
         length (pending (cancel k (fst s))) \<le> 1"
proof -
  have inv: "debounce_inv s" unfolding s_def by (intro debounce_inv_run debounce_inv_init)
  have 1: "length (pending (fst s)) \<le> 1" using inv by (rule debounce_inv_length)
  have 5: "\<forall>i\<in>set (pending (fst s)). pending (fst (job (debounce_call_it fn) i s)) = []"
    using inv by (auto simp: pending_job elim!: debounce_inv_cases)
  have "length (filter (\<lambda>j. j \<noteq> k) (pending (fst s))) \<le> length (pending (fst s))"
    by (rule length_filter_le)
  then have 6: "length (pending (cancel k (fst s))) \<le> 1" using 1 unfolding pending_cancel by linarith
  show ?thesis
    using 1 5 6 cancel_previous_idle[OF inv] debounced_pending[OF inv, of w a]
    by (simp add: debounced_def)
qed

theorem debounce_single_pending_witness:
  "length (pending (fst (debounce_run 200 succeeds [Call ''a'', Run (Upto 50), Call ''b''] (debounce () 0)))) \<le> 1 \<and>
   pending (fst (cancel_previous (debounce_run 200 succeeds [Call ''a'', Run (Upto 50), Call ''b''] (debounce () 0)))) = [] \<and>
   pending (fst (debounced 200 ''c'' (debounce_run 200 succeeds [Call ''a'', Run (Upto 50), Call ''b''] (debounce () 0)))) = [2] \<and>
   1 \<in> set (pending (fst (debounce_run 200 succeeds [Call ''a'', Run (Upto 50), Call ''b''] (debounce () 0)))) \<and>
   pending (fst (job (debounce_call_it succeeds) 1
     (debounce_run 200 succeeds [Call ''a'', Run (Upto 50), Call ''b''] (debounce () 0)))) = []"
proof -
  let ?s = "debounce_run 200 succeeds [Call ''a'', Run (Upto 50), Call ''b''] (debounce () 0) :: (string, unit) debouncer"
  have h: "1 \<in> set (pending (fst ?s))" by code_simp
  have l: "length (timers (fst ?s)) = 2" by code_simp
  note T = debounce_single_pending[where w = 200 and fn = succeeds and ?f0.0 = "()" and c = 0
      and evs = "[Call ''a'', Run (Upto 50), Call ''b'']" and a = "''c''" and k = 0]
  from T have a: "length (pending (fst ?s)) \<le> 1"
    and b: "pending (fst (cancel_previous ?s)) = []"
    and c: "pending (fst (debounced 200 ''c'' ?s)) = [length (timers (fst ?s))]"
    and d: "\<forall>i\<in>set (pending (fst ?s)). pending (fst (job (debounce_call_it succeeds) i ?s)) = []"
    by blast+
  from d h have e: "pending (fst (job (debounce_call_it succeeds) 1 ?s)) = []" by blast
  show ?thesis using a b c[unfolded l] h e by blast
qed

lemma same_future_inv:
  assumes "same_future pre s s'"
  shows "debounce_inv s" and "debounce_inv s'"
  using assms by (auto simp: same_future_def intro: idle_inv armed_inv)

lemma same_future_call:
  assumes "same_future pre s s'"
  shows "same_future pre (debounced w a s) (debounced w a s')"
proof -
  from assms have c: "clock (fst s) = clock (fst s')" by (simp add: same_future_def)
  have "armed (clock (fst s) + max 0 w) a (debounced w a s)"
    using same_future_inv(1)[OF assms] by (rule debounced_armed)
  moreover have "armed (clock (fst s) + max 0 w) a (debounced w a s')"
    unfolding c using same_future_inv(2)[OF assms] by (rule debounced_armed)
  ultimately show ?thesis using assms by (auto simp: same_future_def)
qed

lemma same_future_loop:
  assumes "same_future pre s s'"
  shows "same_future pre (run_loop (debounce_call_it fn) h s) (run_loop (debounce_call_it fn) h s')"
proof -
  let ?cb = "debounce_call_it fn"
  from assms have c: "clock (fst s) = clock (fst s')" "fn_state (snd s) = fn_state (snd s')"
    "executed (snd s) = pre @ executed (snd s')"
    by (simp_all add: same_future_def)
  from assms consider (idle) "pending (fst s) = []" "pending (fst s') = []"
    | (armed) d a where "armed d a s" "armed d a s'"
    by (auto simp: same_future_def)
  then show ?thesis
  proof cases
    case idle
    then show ?thesis using c by (simp add: same_future_def run_loop_idle)
  next
    case armed
    show ?thesis
    proof (cases "within h d")
      case True
      note f = run_loop_armed_fire[OF armed(1) True, of fn] and f' = run_loop_armed_fire[OF armed(2) True, of fn]
      show ?thesis unfolding same_future_def using c by (simp add: f f')
    next
      case False
      note g = run_loop_armed_wait[OF armed(1) False, of ?cb] and g' = run_loop_armed_wait[OF armed(2) False, of ?cb]
      have "armed d a (run_loop ?cb h s) \<and> armed d a (run_loop ?cb h s')" using g(2) g'(2) by simp
      moreover have "clock (fst (run_loop ?cb h s)) = clock (fst (run_loop ?cb h s'))"
        "snd (run_loop ?cb h s) = snd s" "snd (run_loop ?cb h s') = snd s'"
        using c by (simp_all add: g(1) g'(1))
      ultimately show ?thesis unfolding same_future_def using c by auto
    qed
  qed
qed

lemma same_future_run:
  "same_future pre s s' \<Longrightarrow> same_future pre (debounce_run w fn evs s) (debounce_run w fn evs s')"
proof (induction evs arbitrary: s s')
  case Nil
  then show ?case by simp
next
  case (Cons ev evs)
  have "same_future pre (debounce_step w fn ev s) (debounce_step w fn ev s')"
    using Cons.prems by (cases ev) (simp_all add: same_future_call same_future_loop)
  then show ?case using Cons.IH by simp
qed

text \<open>
  Claim C10 (the debouncer after a failure of the wrapped function). A debounced
  wrapper has reached a state, from a fresh one, in which its timer \<open>i\<close> is the next to
  fire; the timer fires, and the wrapped function raises. The variable \<open>timer\<close> of the
  wrapper is as before, and the cancellation the next call makes of the timer it refers
  to changes nothing. Whatever calls and runs of the loop \<open>evs\<close> follow, the executions
  of the wrapped function are those before, followed by the executions the same \<open>evs\<close>
  give on a fresh wrapper started at the same instant, and the wrapped function is left
  in the same state. The proof makes no use of the exception: no variable of the
  debouncer depends on how an execution ends.
\<close>

theorem debounce_survives_failure:
  fixes fn :: "'a \<Rightarrow> 'f \<Rightarrow> 'f outcome" and f0 :: 'f and evs0 evs :: "'a event list"
    and w c :: int and i :: nat
  defines "s \<equiv> debounce_run w fn evs0 (debounce f0 c)"
  defines "s' \<equiv> job (debounce_call_it fn) i s"
  defines "fresh \<equiv> debounce (fn_state (snd s')) (clock (fst s'))"
  assumes "next_due (fst s) = Some i"
    and "raised (fn (callback (timers (fst s) ! i)) (fn_state (snd s)))"
  shows "timer (snd s') = timer (snd s) \<and>
         cancel_previous s' = s' \<and>
         executed (snd (debounce_run w fn evs s')) =
           executed (snd s') @ executed (snd (debounce_run w fn evs fresh)) \<and>
         fn_state (snd (debounce_run w fn evs s')) = fn_state (snd (debounce_run w fn evs fresh))"
proof -
  have inv: "debounce_inv s" unfolding s_def by (intro debounce_inv_run debounce_inv_init)
  have i: "i \<in> set (pending (fst s))" using assms(4) by (rule next_due_in_pending)
  have t: "timer (snd s') = timer (snd s)"
    unfolding s'_def by (simp add: snd_job debounce_call_it_def invoke_def)
  have idle: "pending (fst s') = []"
    unfolding s'_def using inv i by (auto simp: pending_job elim!: debounce_inv_cases)
  have cp: "cancel_previous s' = s'"
    using idle by (auto simp: cancel_previous_def cancel_noop split: option.splits)
  have "same_future (executed (snd s')) s' fresh"
    using idle by (simp add: same_future_def fresh_def debounce_def pending_def)
  then have "same_future (executed (snd s')) (debounce_run w fn evs s') (debounce_run w fn evs fresh)"
    by (rule same_future_run)
  then show ?thesis using t cp by (simp add: same_future_def)
qed

theorem debounce_survives_failure_witness:
  "next_due (fst (debounce_run 200 fails [Call ''a''] (debounce () 0))) = Some 0 \<and>
   raised (fails (callback (timers (fst (debounce_run 200 fails [Call ''a''] (debounce () 0))) ! 0))
     (fn_state (snd (debounce_run 200 fails [Call ''a''] (debounce () 0))))) \<and>
   timer (snd (job (debounce_call_it fails) 0 (debounce_run 200 fails [Call ''a''] (debounce () 0)))) =
     Some 0 \<and>
   cancel_previous (job (debounce_call_it fails) 0 (debounce_run 200 fails [Call ''a''] (debounce () 0))) =
     job (debounce_call_it fails) 0 (debounce_run 200 fails [Call ''a''] (debounce () 0)) \<and>
   executed (snd (debounce_run 200 fails [Run (Upto 300), Call ''b'', Run Forever]
     (job (debounce_call_it fails) 0 (debounce_run 200 fails [Call ''a''] (debounce () 0))))) =
     [(200, ''a''), (500, ''b'')] \<and>
   executed (snd (debounce_run 200 fails [Run (Upto 300), Call ''b'', Run Forever] (debounce () 200))) =
     [(500, ''b'')]"
proof -
  let ?s = "debounce_run 200 fails [Call ''a''] (debounce () 0) :: (string, unit) debouncer"
  let ?s' = "job (debounce_call_it fails) 0 ?s"
  let ?evs = "[Run (Upto 300), Call ''b'', Run Forever] :: string event list"
  have h1: "next_due (fst ?s) = Some 0" by code_simp
  have h2: "raised (fails (callback (timers (fst ?s) ! 0)) (fn_state (snd ?s)))"
    by (simp add: fails_def)
  have e: "timer (snd ?s) = Some 0" "executed (snd ?s') = [(200, ''a'')]"
    "clock (fst ?s') = 200"
    "executed (snd (debounce_run 200 fails ?evs (debounce () 200))) = [(500, ''b'')]"
    by code_simp+
  note T = debounce_survives_failure[where w = 200 and fn = fails and ?evs0.0 = "[Call ''a'']"
      and ?f0.0 = "()" and c = 0 and i = 0 and evs = ?evs, OF h1 h2]
  from T have a: "timer (snd ?s') = timer (snd ?s)" and b: "cancel_previous ?s' = ?s'"
    and c: "executed (snd (debounce_run 200 fails ?evs ?s')) =
      executed (snd ?s') @ executed (snd (debounce_run 200 fails ?evs (debounce (fn_state (snd ?s')) (clock (fst ?s')))))"
    by blast+
  have c': "executed (snd (debounce_run 200 fails ?evs ?s')) = [(200, ''a''), (500, ''b'')]"
    unfolding c e unit_eq[of "fn_state (snd ?s')"] by simp
  show ?thesis using h1 h2 a[unfolded e] b c' e(4) by blast
qed

section \<open>The timer: cancellation\<close>

lemma timer_run_Nil [simp]: "timer_run cb [] s = s"
  by (simp add: timer_run_def)

lemma timer_run_Cons [simp]:
  "timer_run cb (ev # evs) s = timer_run cb evs (timer_step cb ev s)"
  by (simp add: timer_run_def)

lemma timer_run_append:
  "timer_run cb (evs @ evs') s = timer_run cb evs' (timer_run cb evs s)"
  by (simp add: timer_run_def)

lemma timers_cancel:
  "timers (cancel k L) =
     (if k \<in> set (pending L) then (timers L)[k := (timers L ! k)\<lparr>task := Cancelled\<rparr>] else timers L)"
  by (auto simp: cancel_def pending_iff)

lemma timer_step_nth:
  assumes "k < length (timers (fst s))" and "Q (timers (fst s) ! k)"
    and fire: "\<And>T. Q T \<Longrightarrow> task T = Pending \<Longrightarrow> Q (T\<lparr>task := Fired, runs := Suc (runs T)\<rparr>)"
    and stop: "\<And>T. ev = Cancel k \<Longrightarrow> Q T \<Longrightarrow> task T = Pending \<Longrightarrow> Q (T\<lparr>task := Cancelled\<rparr>)"
  shows "k < length (timers (fst (timer_step cb ev s))) \<and> Q (timers (fst (timer_step cb ev s)) ! k)"
proof (cases ev)
  case (New tmo c)
  then show ?thesis using assms(1,2) by (simp add: nth_Timer_init_old)
next
  case (Cancel j)
  show ?thesis
  proof (cases "j = k \<and> k \<in> set (pending (fst s))")
    case True
    then have "task (timers (fst s) ! k) = Pending" by (simp add: pending_iff)
    with assms(2) True Cancel have "Q ((timers (fst s) ! k)\<lparr>task := Cancelled\<rparr>)"
      by (intro stop) simp_all
    then show ?thesis using True Cancel assms(1) by (simp add: timers_cancel)
  next
    case False
    show ?thesis
    proof (cases "j = k")
      case True
      with False show ?thesis using Cancel assms(1,2) by (simp add: timers_cancel)
    next
      case False
      then show ?thesis using Cancel assms(1,2) by (simp add: timers_cancel)
    qed
  qed
next
  case (Loop h)
  then show ?thesis using run_loop_nth[OF assms(1,2) fire, of cb h] by simp
qed

lemma timer_run_nth:
  assumes "k < length (timers (fst s))" and "Q (timers (fst s) ! k)"
    and fire: "\<And>T. Q T \<Longrightarrow> task T = Pending \<Longrightarrow> Q (T\<lparr>task := Fired, runs := Suc (runs T)\<rparr>)"
    and stop: "\<And>T. Cancel k \<in> set evs \<Longrightarrow> Q T \<Longrightarrow> task T = Pending \<Longrightarrow> Q (T\<lparr>task := Cancelled\<rparr>)"
  shows "k < length (timers (fst (timer_run cb evs s))) \<and> Q (timers (fst (timer_run cb evs s)) ! k)"
  using assms(1,2) stop
proof (induction evs arbitrary: s)
  case Nil
  then show ?case by simp
next
  case (Cons ev evs)
  have "k < length (timers (fst (timer_step cb ev s))) \<and> Q (timers (fst (timer_step cb ev s)) ! k)"
    using Cons.prems(1,2) fire
  proof (rule timer_step_nth)
    fix T assume "ev = Cancel k" "Q T" "task T = Pending"
    then show "Q (T\<lparr>task := Cancelled\<rparr>)" using Cons.prems(3) by simp
  qed
  then have "k < length (timers (fst (timer_run cb evs (timer_step cb ev s)))) \<and>
      Q (timers (fst (timer_run cb evs (timer_step cb ev s))) ! k)"
    using Cons.prems(3) by (intro Cons.IH) simp_all
  then show ?case by simp
qed

lemma timer_new_counted:
  "counted (timers (fst (timer_run cb es (snd (Timer_init tmo c L), u))) ! length (timers L))"
proof -
  have "length (timers L) < length (timers (fst (snd (Timer_init tmo c L), u)))" by simp
  from timer_run_nth[OF this, of counted es cb] show ?thesis
    by (simp add: nth_Timer_init_new counted_def)
qed

lemma alone_new:
  assumes "pending L = []"
  shows "alone cb (length (timers L)) (clock L + max 0 tmo) c u (snd (Timer_init tmo c L), u)"
  using assms by (simp add: alone_def nth_Timer_init_new pending_Timer_init)

lemma alone_result:
  "alone cb k d c u0 s \<Longrightarrow> snd s = (if task (timers (fst s) ! k) = Fired then cb c d u0 else u0)"
  by (cases "task (timers (fst s) ! k)") (simp_all add: alone_def)

lemma alone_pending:
  assumes "alone cb k d c u0 s" and "j \<in> set (pending (fst s))"
  shows "pending (fst s) = [k]" and "j = k" and "task (timers (fst s) ! k) = Pending"
proof -
  show t: "task (timers (fst s) ! k) = Pending"
  proof (rule ccontr)
    assume "task (timers (fst s) ! k) \<noteq> Pending"
    then have "pending (fst s) = []"
      using assms(1) by (cases "task (timers (fst s) ! k)") (simp_all add: alone_def)
    with assms(2) show False by simp
  qed
  then show p: "pending (fst s) = [k]" using assms(1) by (simp add: alone_def)
  with assms(2) show "j = k" by simp
qed

lemma alone_cancel:
  assumes "alone cb k d c u0 s"
  shows "alone cb k d c u0 (cancel j (fst s), snd s)"
proof (cases "j \<in> set (pending (fst s))")
  case False
  then show ?thesis using assms by (simp add: cancel_noop)
next
  case True
  note a = alone_pending[OF assms True]
  have k: "k < length (timers (fst s))" "due (timers (fst s) ! k) = d"
    "callback (timers (fst s) ! k) = c" "snd s = u0"
    using assms a(3) by (simp_all add: alone_def)
  have "pending (cancel k (fst s)) = []" by (simp add: pending_cancel a(1))
  moreover have "timers (cancel k (fst s)) = (timers (fst s))[k := (timers (fst s) ! k)\<lparr>task := Cancelled\<rparr>]"
    using a(1) by (simp add: timers_cancel)
  ultimately show ?thesis using k by (simp add: alone_def a(2))
qed

lemma alone_loop:
  assumes "alone cb k d c u0 s"
  shows "alone cb k d c u0 (run_loop cb h s)"
proof (cases "task (timers (fst s) ! k) = Pending")
  case False
  then have "pending (fst s) = []"
    using assms by (cases "task (timers (fst s) ! k)") (simp_all add: alone_def)
  then show ?thesis using assms
    by (cases "task (timers (fst s) ! k)") (simp_all add: run_loop_idle alone_def)
next
  case True
  with assms have k: "k < length (timers (fst s))" "due (timers (fst s) ! k) = d"
    "callback (timers (fst s) ! k) = c" "pending (fst s) = [k]" "clock (fst s) \<le> d" "snd s = u0"
    by (simp_all add: alone_def)
  show ?thesis
  proof (cases "within h d")
    case True
    have m: "max (clock (fst s)) d = d" using k(5) by simp
    have "pending (fst (job cb k s)) = []" by (simp add: pending_job k(4))
    then show ?thesis using True k
      by (simp add: run_loop_single[OF k(4)] alone_def timers_job snd_job m)
  next
    case False
    then have "arrive h (clock (fst s)) \<le> d" using k(5) by (cases h) auto
    then show ?thesis using False k \<open>task (timers (fst s) ! k) = Pending\<close>
      by (simp add: run_loop_single[OF k(4)] alone_def)
  qed
qed

lemma alone_run:
  "alone cb k d c u0 s \<Longrightarrow> \<not> list_ex is_New evs \<Longrightarrow> alone cb k d c u0 (timer_run cb evs s)"
proof (induction evs arbitrary: s)
  case Nil
  then show ?case by simp
next
  case (Cons ev evs)
  have "alone cb k d c u0 (timer_step cb ev s)"
    using Cons.prems by (cases ev) (simp_all add: alone_cancel alone_loop)
  then show ?case using Cons.IH Cons.prems(2) by simp
qed

lemma nth_task_update:
  "callback (ts[j := (ts ! j)\<lparr>task := x\<rparr>] ! m) = callback (ts ! m)"
  "runs (ts[j := (ts ! j)\<lparr>task := x\<rparr>] ! m) = runs (ts ! m)"
proof -
  have "ts[j := (ts ! j)\<lparr>task := x\<rparr>] ! m = (if m = j \<and> j < length ts then (ts ! j)\<lparr>task := x\<rparr> else ts ! m)"
    by (cases "j < length ts") (simp_all add: nth_list_update list_update_beyond)
  then show "callback (ts[j := (ts ! j)\<lparr>task := x\<rparr>] ! m) = callback (ts ! m)"
    "runs (ts[j := (ts ! j)\<lparr>task := x\<rparr>] ! m) = runs (ts ! m)"
    by simp_all
qed

lemma calls_of_note_call:
  "calls_of c (note_call c' t calls) = calls_of c calls + (if c' = c then 1 else 0)"
  by (simp add: calls_of_def note_call_def)

lemma tallied_job:
  assumes "tallied c k n s" and "i \<in> set (pending (fst s))"
  shows "tallied c k n (job note_call i s)"
proof -
  from assms(2) have i: "i < length (timers (fst s))" by (simp add: pending_iff)
  from assms(1) have t: "k < length (timers (fst s))" "callback (timers (fst s) ! k) = c"
    "\<forall>j < length (timers (fst s)). j \<noteq> k \<longrightarrow> callback (timers (fst s) ! j) \<noteq> c"
    "calls_of c (snd s) = n + runs (timers (fst s) ! k)"
    by (simp_all add: tallied_def)
  show ?thesis
  proof (cases "i = k")
    case True
    then show ?thesis using t i
      by (auto simp: tallied_def timers_job snd_job calls_of_note_call nth_list_update)
  next
    case False
    then have "callback (timers (fst s) ! i) \<noteq> c" using t(3) i by simp
    then show ?thesis using False t i
      by (auto simp: tallied_def timers_job snd_job calls_of_note_call nth_list_update)
  qed
qed

lemma tallied_step:
  assumes "tallied c k n s" and "\<forall>tmo. ev \<noteq> New tmo c"
  shows "tallied c k n (timer_step note_call ev s)"
proof (cases ev)
  case (New tmo c')
  then have "c' \<noteq> c" using assms(2) by simp
  then show ?thesis using assms(1) New
    by (auto simp: tallied_def Timer_init_def nth_append)
next
  case (Cancel j)
  then show ?thesis using assms(1)
    by (simp add: tallied_def timers_cancel nth_task_update)
next
  case (Loop h)
  have "tallied c k n (run_loop note_call h s)"
    using assms(1)
  proof (rule run_loop_preserves)
    fix s' :: "'a loop \<times> (int \<times> 'a) list" and i
    assume "tallied c k n s'" "i \<in> set (pending (fst s'))"
    then show "tallied c k n (job note_call i s')" by (rule tallied_job)
  next
    fix s' :: "'a loop \<times> (int \<times> 'a) list" and t
    assume "tallied c k n s'"
    then show "tallied c k n ((fst s')\<lparr>clock := t\<rparr>, snd s')" by (simp add: tallied_def)
  qed
  then show ?thesis using Loop by simp
qed

lemma tallied_run:
  "tallied c k n s \<Longrightarrow> \<forall>tmo. New tmo c \<notin> set evs \<Longrightarrow> tallied c k n (timer_run note_call evs s)"
proof (induction evs arbitrary: s)
  case Nil
  then show ?case by simp
next
  case (Cons ev evs)
  have "tallied c k n (timer_step note_call ev s)"
    using Cons.prems by (intro tallied_step) auto
  then show ?case using Cons.IH Cons.prems(2) by simp
qed

lemma tallied_new:
  assumes "c \<notin> callback ` set (timers L)"
  shows "tallied c (length (timers L)) (calls_of c calls) (snd (Timer_init tmo c L), calls)"
proof -
  have "callback (timers L ! j) \<noteq> c" if "j < length (timers L)" for j
    using assms that by (metis image_eqI nth_mem)
  then show ?thesis
    by (auto simp: tallied_def Timer_init_def nth_append)
qed

text \<open>
  Claim C5 (the cancellation of a timer). A timer is created in any state of a loop,
  and timers are created and cancelled and the loop runs, in any order \<open>evs\<close>. The
  callback of the timer has been called once when the timer has fired, and not at all
  otherwise. Once the loop has run until no timer is pending, the timer has fired or is
  cancelled. A cancellation while the timer is pending cancels it for good: the callback
  is never called, whatever \<open>evs'\<close> follows. A cancellation of the timer when it has
  fired, or when it is cancelled already, changes nothing and raises nothing. A timer
  that has fired stays so, its callback called once; and when \<open>evs\<close> has no
  cancellation of the timer, the callback is called once by the time the loop has run
  out.

  The calls are counted by \<open>runs\<close>, and seen in what the callbacks act on. When the timer
  is the only one that can fire, what the callbacks can reach is, once the timer has
  fired, what one call of its callback at the due instant makes of the initial value,
  and the initial value itself as long as it has not fired or when it is cancelled.
  Among other timers, when the callbacks record their calls and the callback of the
  timer is not that of another one, the record holds one more call of it when the timer
  has fired, and none more otherwise.
\<close>

theorem timer_cancel_semantics:
  fixes cb :: "'c \<Rightarrow> int \<Rightarrow> 'u \<Rightarrow> 'u" and s0 :: "'c loop \<times> 'u" and tmo :: int and c :: 'c
    and evs evs' :: "'c timer_event list" and calls0 :: "(int \<times> 'c) list"
  defines "k \<equiv> fst (Timer_init tmo c (fst s0))"
  defines "s1 \<equiv> (snd (Timer_init tmo c (fst s0)), snd s0)"
  defines "T \<equiv> \<lambda>es. timers (fst (timer_run cb es s1)) ! k"
  defines "s2 \<equiv> (snd (Timer_init tmo c (fst s0)), calls0)"
  shows "runs (T evs) = (if task (T evs) = Fired then 1 else 0) \<and>
         task (T (evs @ [Loop Forever])) \<noteq> Pending \<and>
         (task (T evs) = Pending \<longrightarrow>
            task (T (evs @ Cancel k # evs')) = Cancelled \<and> runs (T (evs @ Cancel k # evs')) = 0) \<and>
         (task (T evs) \<noteq> Pending \<longrightarrow>
            timer_step cb (Cancel k) (timer_run cb evs s1) = timer_run cb evs s1) \<and>
         (task (T evs) = Fired \<longrightarrow>
            task (T (evs @ evs')) = Fired \<and> runs (T (evs @ evs')) = 1) \<and>
         (Cancel k \<notin> set evs \<longrightarrow>
            task (T (evs @ [Loop Forever])) = Fired \<and> runs (T (evs @ [Loop Forever])) = 1) \<and>
         (pending (fst s0) = [] \<longrightarrow> \<not> list_ex is_New evs \<longrightarrow>
            snd (timer_run cb evs s1) =
              (if task (T evs) = Fired then cb c (clock (fst s0) + max 0 tmo) (snd s0) else snd s0)) \<and>
         (c \<notin> callback ` set (timers (fst s0)) \<longrightarrow> (\<forall>tmo'. New tmo' c \<notin> set evs) \<longrightarrow>
            calls_of c (snd (timer_run note_call evs s2)) =
              calls_of c calls0 +
              (if task (timers (fst (timer_run note_call evs s2)) ! k) = Fired then 1 else 0))"
proof -
  have k: "k = length (timers (fst s0))" by (simp add: k_def)
  have k1: "k < length (timers (fst s1))" by (simp add: k s1_def)
  have new: "timers (fst s1) ! k =
      \<lparr>timeout = tmo, callback = c, due = clock (fst s0) + max 0 tmo, task = Pending, runs = 0\<rparr>"
    by (simp add: k s1_def nth_Timer_init_new)
  have len: "k < length (timers (fst (timer_run cb es s1)))" for es
    using timer_run_nth[OF k1, of "\<lambda>T. True" es cb] by simp
  have cnt: "counted (T es)" for es
    unfolding T_def using timer_run_nth[OF k1, of counted es cb]
    by (simp add: new counted_def)
  have 1: "runs (T evs) = (if task (T evs) = Fired then 1 else 0)"
    using cnt[of evs] by (simp add: counted_def)
  have 2: "task (T (evs @ [Loop Forever])) \<noteq> Pending"
  proof -
    have "T (evs @ [Loop Forever]) \<in> set (timers (fst (run_loop cb Forever (timer_run cb evs s1))))"
      unfolding T_def using len[of "evs @ [Loop Forever]"] by (simp add: timer_run_append)
    then show ?thesis using run_loop_Forever_done by blast
  qed
  have 3: "task (T (evs @ Cancel k # evs')) = Cancelled \<and> runs (T (evs @ Cancel k # evs')) = 0"
    if p: "task (T evs) = Pending"
  proof -
    let ?s = "timer_run cb evs s1"
    let ?Q = "\<lambda>T. task T = Cancelled \<and> runs T = 0"
    have "k \<in> set (pending (fst ?s))" using p len[of evs] by (simp add: pending_iff T_def)
    moreover have "runs (timers (fst ?s) ! k) = 0" using cnt[of evs] p by (simp add: counted_def T_def)
    ultimately have "?Q (timers (fst (timer_step cb (Cancel k) ?s)) ! k)"
      using len[of evs] by (simp add: timers_cancel)
    moreover have "k < length (timers (fst (timer_step cb (Cancel k) ?s)))" using len[of evs] by simp
    ultimately have "?Q (timers (fst (timer_run cb evs' (timer_step cb (Cancel k) ?s))) ! k)"
      using timer_run_nth[of k "timer_step cb (Cancel k) ?s" ?Q evs' cb] by simp
    then show ?thesis by (simp add: T_def timer_run_append)
  qed
  have 4: "timer_step cb (Cancel k) (timer_run cb evs s1) = timer_run cb evs s1"
    if "task (T evs) \<noteq> Pending"
  proof -
    have "k \<notin> set (pending (fst (timer_run cb evs s1)))" using that by (simp add: pending_iff T_def)
    then show ?thesis by (simp add: cancel_noop)
  qed
  have 5: "task (T (evs @ evs')) = Fired \<and> runs (T (evs @ evs')) = 1" if "task (T evs) = Fired"
  proof -
    let ?Q = "\<lambda>T. task T = Fired \<and> runs T = 1"
    have "?Q (timers (fst (timer_run cb evs s1)) ! k)" using that 1 by (simp add: T_def)
    then have "?Q (timers (fst (timer_run cb evs' (timer_run cb evs s1))) ! k)"
      using timer_run_nth[of k "timer_run cb evs s1" ?Q evs' cb] len[of evs] by simp
    then show ?thesis by (simp add: T_def timer_run_append)
  qed
  have 6: "task (T (evs @ [Loop Forever])) = Fired \<and> runs (T (evs @ [Loop Forever])) = 1"
    if nc: "Cancel k \<notin> set evs"
  proof -
    let ?Q = "\<lambda>T. task T \<noteq> Cancelled"
    have "?Q (timers (fst (timer_run cb (evs @ [Loop Forever]) s1)) ! k)"
      using timer_run_nth[OF k1, of ?Q "evs @ [Loop Forever]" cb] nc by (simp add: new)
    then have "task (T (evs @ [Loop Forever])) \<noteq> Cancelled" by (simp add: T_def)
    with 2 have "task (T (evs @ [Loop Forever])) = Fired"
      by (cases "task (T (evs @ [Loop Forever]))") simp_all
    then show ?thesis using cnt[of "evs @ [Loop Forever]"] by (simp add: counted_def)
  qed
  have 7: "snd (timer_run cb evs s1) =
      (if task (T evs) = Fired then cb c (clock (fst s0) + max 0 tmo) (snd s0) else snd s0)"
    if "pending (fst s0) = []" "\<not> list_ex is_New evs"
  proof -
    have "alone cb k (clock (fst s0) + max 0 tmo) c (snd s0) s1"
      unfolding k s1_def using that(1) by (rule alone_new)
    then have "alone cb k (clock (fst s0) + max 0 tmo) c (snd s0) (timer_run cb evs s1)"
      using that(2) by (rule alone_run)
    then show ?thesis unfolding T_def by (rule alone_result)
  qed
  have 8: "calls_of c (snd (timer_run note_call evs s2)) =
      calls_of c calls0 + (if task (timers (fst (timer_run note_call evs s2)) ! k) = Fired then 1 else 0)"
    if "c \<notin> callback ` set (timers (fst s0))" "\<forall>tmo'. New tmo' c \<notin> set evs"
  proof -
    have "tallied c k (calls_of c calls0) s2"
      unfolding k s2_def using that(1) by (rule tallied_new)
    then have "tallied c k (calls_of c calls0) (timer_run note_call evs s2)"
      using that(2) by (rule tallied_run)
    moreover have "counted (timers (fst (timer_run note_call evs s2)) ! k)"
      unfolding k s2_def by (rule timer_new_counted)
    ultimately show ?thesis by (simp add: tallied_def counted_def)
  qed
  from 1 2 3 4 5 6 7 8 show ?thesis by blast
qed



theorem timer_cancel_semantics_witness:
  "task (timers (fst (timer_run note_call [Loop (Upto 50)]
      (snd (Timer_init 100 ''x'' \<lparr>clock = 0, timers = []\<rparr>), []))) ! 0) = Pending \<and>
   task (timers (fst (timer_run note_call ([Loop (Upto 50)] @ Cancel 0 # [Cancel 0, Loop Forever])
      (snd (Timer_init 100 ''x'' \<lparr>clock = 0, timers = []\<rparr>), []))) ! 0) = Cancelled \<and>
   runs (timers (fst (timer_run note_call ([Loop (Upto 50)] @ Cancel 0 # [Cancel 0, Loop Forever])
      (snd (Timer_init 100 ''x'' \<lparr>clock = 0, timers = []\<rparr>), []))) ! 0) = 0 \<and>
   Cancel 0 \<notin> set [Loop (Upto 50) :: string timer_event] \<and>
   task (timers (fst (timer_run note_call ([Loop (Upto 50)] @ [Loop Forever])
      (snd (Timer_init 100 ''x'' \<lparr>clock = 0, timers = []\<rparr>), []))) ! 0) = Fired \<and>
   runs (timers (fst (timer_run note_call ([Loop (Upto 50)] @ [Loop Forever])
      (snd (Timer_init 100 ''x'' \<lparr>clock = 0, timers = []\<rparr>), []))) ! 0) = 1 \<and>
   task (timers (fst (timer_run note_call [Loop (Upto 150)]
      (snd (Timer_init 100 ''x'' \<lparr>clock = 0, timers = []\<rparr>), []))) ! 0) = Fired \<and>
   timer_step note_call (Cancel 0) (timer_run note_call [Loop (Upto 150)]
      (snd (Timer_init 100 ''x'' \<lparr>clock = 0, timers = []\<rparr>), [])) =
     timer_run note_call [Loop (Upto 150)]
      (snd (Timer_init 100 ''x'' \<lparr>clock = 0, timers = []\<rparr>), []) \<and>
   runs (timers (fst (timer_run note_call ([Loop (Upto 150)] @ [Cancel 0, Cancel 0, Loop Forever])
      (snd (Timer_init 100 ''x'' \<lparr>clock = 0, timers = []\<rparr>), []))) ! 0) = 1 \<and>
   pending (\<lparr>clock = 0, timers = []\<rparr> :: string loop) = [] \<and>
   \<not> list_ex is_New [Loop (Upto 150) :: string timer_event] \<and>
   snd (timer_run note_call [Loop (Upto 150)]
      (snd (Timer_init 100 ''x'' \<lparr>clock = 0, timers = []\<rparr>), [])) = [(100, ''x'')] \<and>
   \<not> list_ex is_New [Loop (Upto 50) :: string timer_event] \<and>
   snd (timer_run note_call [Loop (Upto 50)]
      (snd (Timer_init 100 ''x'' \<lparr>clock = 0, timers = []\<rparr>), [])) = [] \<and>
   ''x'' \<notin> callback ` set (timers (snd (Timer_init 50 ''y'' \<lparr>clock = 0, timers = []\<rparr>))) \<and>
   (\<forall>tmo'. New tmo' ''x'' \<notin> set [New 70 ''z'', Loop Forever]) \<and>
   task (timers (fst (timer_run note_call [New 70 ''z'', Loop Forever]
      (snd (Timer_init 100 ''x'' (snd (Timer_init 50 ''y'' \<lparr>clock = 0, timers = []\<rparr>))), []))) ! 1) = Fired \<and>
   calls_of ''x'' (snd (timer_run note_call [New 70 ''z'', Loop Forever]
      (snd (Timer_init 100 ''x'' (snd (Timer_init 50 ''y'' \<lparr>clock = 0, timers = []\<rparr>))), []))) = 1 \<and>
   snd (timer_run note_call [New 70 ''z'', Loop Forever]
      (snd (Timer_init 100 ''x'' (snd (Timer_init 50 ''y'' \<lparr>clock = 0, timers = []\<rparr>))), [])) =
     [(50, ''y''), (70, ''z''), (100, ''x'')]"
proof -
  let ?E = "\<lparr>clock = 0, timers = []\<rparr> :: string loop"
  let ?s0 = "(?E, []) :: string loop \<times> (int \<times> string) list"
  let ?s1 = "(snd (Timer_init 100 ''x'' ?E), []) :: string loop \<times> (int \<times> string) list"
  let ?F = "snd (Timer_init 50 ''y'' ?E)"
  let ?s2 = "(snd (Timer_init 100 ''x'' ?F), []) :: string loop \<times> (int \<times> string) list"
  let ?evs = "[New 70 ''z'', Loop Forever] :: string timer_event list"
  have k: "fst (Timer_init 100 ''x'' ?E) = 0" by simp
  have k': "fst (Timer_init 100 ''x'' ?F) = 1" by simp
  have h1: "task (timers (fst (timer_run note_call [Loop (Upto 50)] ?s1)) ! 0) = Pending"
    by code_simp
  have h2: "Cancel 0 \<notin> set [Loop (Upto 50) :: string timer_event]" by simp
  have h3: "task (timers (fst (timer_run note_call [Loop (Upto 150)] ?s1)) ! 0) = Fired"
    by code_simp
  have h5: "pending ?E = []" by (simp add: pending_def)
  have h6: "\<not> list_ex is_New [Loop (Upto 150) :: string timer_event]"
    "\<not> list_ex is_New [Loop (Upto 50) :: string timer_event]"
    by simp_all
  have h7: "''x'' \<notin> callback ` set (timers ?F)" by (simp add: Timer_init_def)
  have h8: "\<forall>tmo'. New tmo' ''x'' \<notin> set ?evs" by simp
  have h9: "task (timers (fst (timer_run note_call ?evs ?s2)) ! 1) = Fired" by code_simp
  have h10: "snd (timer_run note_call ?evs ?s2) = [(50, ''y''), (70, ''z''), (100, ''x'')]"
    by code_simp
  note A = timer_cancel_semantics[where cb = note_call and ?s0.0 = ?s0 and tmo = 100 and c = "''x''"
      and evs = "[Loop (Upto 50)]" and evs' = "[Cancel 0, Loop Forever]" and ?calls0.0 = "[]",
      unfolded fst_conv snd_conv k]
  note B = timer_cancel_semantics[where cb = note_call and ?s0.0 = ?s0 and tmo = 100 and c = "''x''"
      and evs = "[Loop (Upto 150)]" and evs' = "[Cancel 0, Cancel 0, Loop Forever]" and ?calls0.0 = "[]",
      unfolded fst_conv snd_conv k]
  note C = timer_cancel_semantics[where cb = note_call and ?s0.0 = "(?F, [])" and tmo = 100
      and c = "''x''" and evs = ?evs and evs' = "[]" and ?calls0.0 = "[]",
      unfolded fst_conv snd_conv k']
  from A h1 have a3: "task (timers (fst (timer_run note_call ([Loop (Upto 50)] @ Cancel 0 # [Cancel 0, Loop Forever]) ?s1)) ! 0) = Cancelled"
    "runs (timers (fst (timer_run note_call ([Loop (Upto 50)] @ Cancel 0 # [Cancel 0, Loop Forever]) ?s1)) ! 0) = 0"
    by blast+
  from A h2 have a6: "task (timers (fst (timer_run note_call ([Loop (Upto 50)] @ [Loop Forever]) ?s1)) ! 0) = Fired"
    "runs (timers (fst (timer_run note_call ([Loop (Upto 50)] @ [Loop Forever]) ?s1)) ! 0) = 1"
    by blast+
  from A h5 h6(2) have "snd (timer_run note_call [Loop (Upto 50)] ?s1) =
      (if task (timers (fst (timer_run note_call [Loop (Upto 50)] ?s1)) ! 0) = Fired
       then note_call ''x'' (clock ?E + max 0 100) [] else [])"
    by blast
  then have a7: "snd (timer_run note_call [Loop (Upto 50)] ?s1) = []"
    unfolding h1 by simp
  from B h3 have b4: "timer_step note_call (Cancel 0) (timer_run note_call [Loop (Upto 150)] ?s1) =
      timer_run note_call [Loop (Upto 150)] ?s1"
    by simp
  from B h3 have b5: "runs (timers (fst (timer_run note_call ([Loop (Upto 150)] @ [Cancel 0, Cancel 0, Loop Forever]) ?s1)) ! 0) = 1"
    by blast
  from B h5 h6(1) have "snd (timer_run note_call [Loop (Upto 150)] ?s1) =
      (if task (timers (fst (timer_run note_call [Loop (Upto 150)] ?s1)) ! 0) = Fired
       then note_call ''x'' (clock ?E + max 0 100) [] else [])"
    by blast
  then have b7: "snd (timer_run note_call [Loop (Upto 150)] ?s1) = [(100, ''x'')]"
    unfolding h3 by (simp add: note_call_def)
  from C h7 h8 have "calls_of ''x'' (snd (timer_run note_call ?evs ?s2)) =
      calls_of ''x'' [] +
      (if task (timers (fst (timer_run note_call ?evs ?s2)) ! 1) = Fired then 1 else 0)"
    by blast
  then have c8: "calls_of ''x'' (snd (timer_run note_call ?evs ?s2)) = 1"
    unfolding h9 by (simp add: calls_of_def)
  show ?thesis using h1 h2 h3 h5 h6 h7 h8 h9 h10 a3 a6 a7 b4 b5 b7 c8 by blast
qed

end
